theory Spec2Isabelle
  imports Main "HOL-Library.Sublist" "HOL-Library.Multiset" "HOL-Library.List_Lexorder"
begin

section \<open>Strings and character classes\<close>

text \<open>
  A Python \<^verbatim>\<open>str\<close> is a sequence of Unicode code points, and \<^verbatim>\<open>len\<close>, slicing and
  the \<^verbatim>\<open>re\<close> module all count code points. A document is therefore a list of code
  points (integers, as \<^verbatim>\<open>ord\<close> returns them); \<open>lit\<close> writes an ASCII literal as such a list.
\<close>

type_synonym pystr = "int list"

abbreviation ch :: "char \<Rightarrow> int" where
  "ch c \<equiv> of_char c"

definition lit :: "string \<Rightarrow> pystr" where
  "lit s = map of_char s"

text \<open>
  The class \<^verbatim>\<open>\s\<close> of a \<^verbatim>\<open>str\<close> pattern, which is also the set that \<^verbatim>\<open>str.strip()\<close>
  removes: the code points for which \<^verbatim>\<open>str.isspace()\<close> holds.
\<close>

definition uni_space :: "int \<Rightarrow> bool" where
  "uni_space c =
     ((9 \<le> c \<and> c \<le> 13) \<or> (28 \<le> c \<and> c \<le> 32) \<or> c = 133 \<or> c = 160 \<or> c = 5760
      \<or> (8192 \<le> c \<and> c \<le> 8202) \<or> c = 8232 \<or> c = 8233 \<or> c = 8239 \<or> c = 8287
      \<or> c = 12288)"

definition non_space :: "int \<Rightarrow> bool" where
  "non_space c = (\<not> uni_space c)"

definition ascii_upper :: "int \<Rightarrow> bool" where
  "ascii_upper c = (65 \<le> c \<and> c \<le> 90)"

definition ascii_letter :: "int \<Rightarrow> bool" where
  "ascii_letter c = ((97 \<le> c \<and> c \<le> 122) \<or> (65 \<le> c \<and> c \<le> 90))"

definition ascii_digit :: "int \<Rightarrow> bool" where
  "ascii_digit c = (48 \<le> c \<and> c \<le> 57)"

definition is_ascii :: "pystr \<Rightarrow> bool" where
  "is_ascii s = list_all (\<lambda>c. c < 128) s"

section \<open>The libraries the notebook calls\<close>

text \<open>
  The notebook relies on the Unicode character database (through \<^verbatim>\<open>re\<close>,
  \<^verbatim>\<open>str.lower\<close> and \<^verbatim>\<open>unicodedata\<close>), on the spaCy pipeline \<^verbatim>\<open>nlp\<close>, on the NLTK
  tokenizer \<^verbatim>\<open>tokenizer\<close> and on the NLTK list \<^verbatim>\<open>stopword_list\<close>. None of them is
  code of the repository. Their behaviour on ASCII is fixed below; everything
  else is a field of the record \<open>env\<close>, over which every theorem quantifies.
\<close>

record env =
  uni_decimal :: "int \<Rightarrow> bool"
  uni_alnum :: "int \<Rightarrow> bool"
  uni_lower :: "pystr \<Rightarrow> pystr"
  compat_decomp :: "int \<Rightarrow> pystr"
  nlp :: "pystr \<Rightarrow> (pystr \<times> pystr) list"
  toktok :: "pystr \<Rightarrow> pystr list"
  stopword_list :: "pystr list"

text \<open>\<^verbatim>\<open>\d\<close>: a decimal digit; beyond ASCII the category Nd of the database.\<close>

definition is_digit :: "env \<Rightarrow> int \<Rightarrow> bool" where
  "is_digit e c = (if c < 128 then ascii_digit c else uni_decimal e c)"

text \<open>\<^verbatim>\<open>\w\<close>, which decides \<^verbatim>\<open>\b\<close>: alphanumeric or the underscore.\<close>

definition is_word :: "env \<Rightarrow> int \<Rightarrow> bool" where
  "is_word e c =
     (if c < 128 then (ascii_letter c \<or> ascii_digit c \<or> c = ch CHR ''_'') else uni_alnum e c)"

text \<open>
  \<^verbatim>\<open>str.lower()\<close>: on an ASCII string the letters A to Z are shifted to a to z;
  a string with other code points is lowered by the database.
\<close>

definition ascii_lower :: "int \<Rightarrow> int" where
  "ascii_lower c = (if ascii_upper c then c + 32 else c)"

definition str_lower :: "env \<Rightarrow> pystr \<Rightarrow> pystr" where
  "str_lower e s = (if is_ascii s then map ascii_lower s else uni_lower e s)"

text \<open>
  \<^verbatim>\<open>str.strip()\<close> and \<^verbatim>\<open>sep.join(xs)\<close>.
\<close>

definition strip :: "pystr \<Rightarrow> pystr" where
  "strip s = rev (dropWhile uni_space (rev (dropWhile uni_space s)))"

fun join :: "pystr \<Rightarrow> pystr list \<Rightarrow> pystr" where
  "join sep [] = []"
| "join sep [x] = x"
| "join sep (x # y # ys) = x @ sep @ join sep (y # ys)"

section \<open>Regular expressions\<close>

text \<open>
  The patterns of the notebook are sequences of the following items: one
  character of a class, a greedy repetition of a class (\<^verbatim>\<open>+\<close> or \<^verbatim>\<open>*\<close>), an ordered
  alternative of literal strings, and the word boundary \<^verbatim>\<open>\b\<close>.
\<close>

datatype atom =
    Chr "int \<Rightarrow> bool"
  | Plus "int \<Rightarrow> bool"
  | Star "int \<Rightarrow> bool"
  | Alt "pystr list"
  | WordB

fun first_some :: "'a option list \<Rightarrow> 'a option" where
  "first_some [] = None"
| "first_some (None # xs) = first_some xs"
| "first_some (Some x # xs) = Some x"

text \<open>The character before position \<open>n\<close> of \<open>s\<close>, when \<open>prev\<close> precedes \<open>s\<close>.\<close>

definition prev_after :: "int option \<Rightarrow> pystr \<Rightarrow> nat \<Rightarrow> int option" where
  "prev_after prev s n = (if n = 0 then prev else Some (last (take n s)))"

definition word_at :: "(int \<Rightarrow> bool) \<Rightarrow> int option \<Rightarrow> bool" where
  "word_at w x = (case x of None \<Rightarrow> False | Some c \<Rightarrow> w c)"

definition at_boundary :: "(int \<Rightarrow> bool) \<Rightarrow> int option \<Rightarrow> pystr \<Rightarrow> bool" where
  "at_boundary w prev s =
     (word_at w prev \<noteq> word_at w (case s of [] \<Rightarrow> None | c # _ \<Rightarrow> Some c))"

text \<open>
  \<open>rx_match w r prev s\<close> is the match of the pattern \<open>r\<close> anchored at the start of
  \<open>s\<close>, as the backtracking matcher of \<^verbatim>\<open>re\<close> finds it: the length of the first
  match in its search order (a greedy repetition tries the longest run first,
  an alternative its branches from left to right), or \<open>None\<close>. \<open>prev\<close> is the
  character before \<open>s\<close> in the text and \<open>w\<close> the class \<^verbatim>\<open>\w\<close>.
\<close>

fun rx_match :: "(int \<Rightarrow> bool) \<Rightarrow> atom list \<Rightarrow> int option \<Rightarrow> pystr \<Rightarrow> nat option" where
  "rx_match w [] prev s = Some 0"
| "rx_match w (Chr p # r) prev s =
     (case s of
        [] \<Rightarrow> None
      | c # cs \<Rightarrow> if p c then map_option Suc (rx_match w r (Some c) cs) else None)"
| "rx_match w (Plus p # r) prev s =
     first_some
       (map (\<lambda>n. map_option ((+) n) (rx_match w r (prev_after prev s n) (drop n s)))
            (rev [1 ..< Suc (length (takeWhile p s))]))"
| "rx_match w (Star p # r) prev s =
     first_some
       (map (\<lambda>n. map_option ((+) n) (rx_match w r (prev_after prev s n) (drop n s)))
            (rev [0 ..< Suc (length (takeWhile p s))]))"
| "rx_match w (Alt ls # r) prev s =
     first_some
       (map (\<lambda>l. if prefix l s
                  then map_option ((+) (length l))
                         (rx_match w r (prev_after prev s (length l)) (drop (length l) s))
                  else None)
            ls)"
| "rx_match w (WordB # r) prev s =
     (if at_boundary w prev s then rx_match w r prev s else None)"

text \<open>
  \<^verbatim>\<open>re.sub(pattern, repl, text)\<close>: the text is scanned from left to right; at the
  leftmost position where the pattern matches, the match is replaced and the
  scan goes on behind it; a character at which nothing matches is copied.
  \<open>m prev s\<close> is the anchored match at the suffix \<open>s\<close>, and \<open>repl\<close> computes the
  replacement from the matched text. Every pattern of the notebook matches at
  least one character, so the rule of \<^verbatim>\<open>re.sub\<close> for empty matches never applies.
\<close>

function re_sub :: "(int option \<Rightarrow> pystr \<Rightarrow> nat option) \<Rightarrow> (pystr \<Rightarrow> pystr) \<Rightarrow> int option \<Rightarrow> pystr \<Rightarrow> pystr" where
  "re_sub m repl prev [] = []"
| "re_sub m repl prev (c # cs) =
     (case m prev (c # cs) of
        Some (Suc n) \<Rightarrow>
          repl (take (Suc n) (c # cs)) @ re_sub m repl (prev_after prev (c # cs) (Suc n)) (drop n cs)
      | _ \<Rightarrow> c # re_sub m repl (Some c) cs)"
  by pat_completeness auto
termination
  by (relation "measure (\<lambda>(m, repl, prev, s). length s)") auto

section \<open>The cleaning functions of the notebook\<close>

definition space :: "pystr" where
  "space = [ch CHR '' '']"

text \<open>\<^verbatim>\<open>\b[^\s]+@[^\s]+[.][^\s]+\b\<close>\<close>

definition email_rx :: "atom list" where
  "email_rx =
     [WordB, Plus non_space, Chr (\<lambda>c. c = ch CHR ''@''), Plus non_space,
      Chr (\<lambda>c. c = ch CHR ''.''), Plus non_space, WordB]"

definition remove_emails :: "env \<Rightarrow> pystr \<Rightarrow> pystr" where
  "remove_emails e text = re_sub (rx_match (is_word e) email_rx) (\<lambda>_. space) None text"

text \<open>\<^verbatim>\<open>(http|https)://[^\s]*\<close>\<close>

definition hyperlink_rx :: "atom list" where
  "hyperlink_rx =
     [Alt [lit ''http'', lit ''https''], Chr (\<lambda>c. c = ch CHR '':''),
      Chr (\<lambda>c. c = ch CHR ''/''), Chr (\<lambda>c. c = ch CHR ''/''), Star non_space]"

definition remove_hyperlink :: "env \<Rightarrow> pystr \<Rightarrow> pystr" where
  "remove_hyperlink e text = re_sub (rx_match (is_word e) hyperlink_rx) (\<lambda>_. space) None text"

text \<open>\<^verbatim>\<open>(\s\d+)\<close>\<close>

definition digits_rx :: "env \<Rightarrow> atom list" where
  "digits_rx e = [Chr uni_space, Plus (is_digit e)]"

definition remove_digits :: "env \<Rightarrow> pystr \<Rightarrow> pystr" where
  "remove_digits e text = re_sub (rx_match (is_word e) (digits_rx e)) (\<lambda>_. space) None text"

text \<open>\<^verbatim>\<open>[^a-zA-Z\s]\<close>\<close>

definition special_rx :: "atom list" where
  "special_rx = [Chr (\<lambda>c. \<not> (ascii_letter c \<or> uni_space c))]"

definition remove_special_characters :: "env \<Rightarrow> pystr \<Rightarrow> pystr" where
  "remove_special_characters e text =
     re_sub (rx_match (is_word e) special_rx) (\<lambda>_. space) None text"

text \<open>
  \<^verbatim>\<open>unicodedata.normalize('NFKD', text).encode('ascii', 'ignore').decode('utf-8', 'ignore')\<close>:
  every code point is replaced by its compatibility decomposition, and what is
  not ASCII is dropped. An ASCII character decomposes to itself.
\<close>

definition remove_accented_chars :: "env \<Rightarrow> pystr \<Rightarrow> pystr" where
  "remove_accented_chars e text =
     concat (map (\<lambda>c. if c < 128 then [c] else filter (\<lambda>d. d < 128) (compat_decomp e c)) text)"

text \<open>
  \<open>remove_stopwords\<close> takes \<open>is_lower_case\<close> as the source does, and like the
  source never reads it.
\<close>

definition remove_stopwords :: "env \<Rightarrow> pystr \<Rightarrow> bool \<Rightarrow> pystr" where
  "remove_stopwords e text is_lower_case =
     (let tokens = toktok e text;
          tokens = map strip tokens;
          filtered_tokens = filter (\<lambda>token. str_lower e token \<notin> set (stopword_list e)) tokens;
          filtered_text = join space filtered_tokens
      in filtered_text)"

text \<open>A token of the spaCy document is its pair (\<^verbatim>\<open>text\<close>, \<^verbatim>\<open>lemma_\<close>).\<close>

definition lemmatize_text :: "env \<Rightarrow> pystr \<Rightarrow> pystr" where
  "lemmatize_text e text =
     join space (map (\<lambda>(word_text, lemma). if lemma \<noteq> lit ''-PRON-'' then lemma else word_text)
                     (nlp e text))"

section \<open>The pipeline\<close>

text \<open>The eight flags of \<open>text_preprocessing\<close>, under the names of its parameters.\<close>

record flags =
  isRemoveEmail :: bool
  isRemoveDigits :: bool
  isRemoveHyperLink :: bool
  isRemoveSpecialCharac :: bool
  isRemoveAccentChar :: bool
  text_lower_case :: bool
  text_lemmatization :: bool
  stopword_removal :: bool

text \<open>\<^verbatim>\<open>[\r|\n|\r\n]+\<close>: a character class of carriage return, bar and line feed.\<close>

definition newline_rx :: "atom list" where
  "newline_rx = [Plus (\<lambda>c. c = 13 \<or> c = ch CHR ''|'' \<or> c = 10)]"

definition collapse_newlines :: "env \<Rightarrow> pystr \<Rightarrow> pystr" where
  "collapse_newlines e doc = re_sub (rx_match (is_word e) newline_rx) (\<lambda>_. space) None doc"

text \<open>
  \<^verbatim>\<open>([{.(-)!}])\<close>: in the class, \<^verbatim>\<open>(-)\<close> is the range from the opening to the closing
  parenthesis, so the class holds six characters and not the hyphen. The
  replacement \<^verbatim>\<open>" \\1 "\<close> puts the match between two spaces.
\<close>

definition special_char :: "int \<Rightarrow> bool" where
  "special_char c =
     (c = ch CHR ''{'' \<or> c = ch CHR ''.'' \<or> (ch CHR ''('' \<le> c \<and> c \<le> ch CHR '')'')
      \<or> c = ch CHR ''!'' \<or> c = ch CHR ''}'')"

definition special_char_pattern :: "atom list" where
  "special_char_pattern = [Chr special_char]"

definition isolate_special :: "env \<Rightarrow> pystr \<Rightarrow> pystr" where
  "isolate_special e doc =
     re_sub (rx_match (is_word e) special_char_pattern) (\<lambda>g. space @ g @ space) None doc"

text \<open>\<^verbatim>\<open>' +'\<close>\<close>

definition spaces_rx :: "atom list" where
  "spaces_rx = [Plus (\<lambda>c. c = ch CHR '' '')]"

definition collapse_spaces :: "env \<Rightarrow> pystr \<Rightarrow> pystr" where
  "collapse_spaces e doc = re_sub (rx_match (is_word e) spaces_rx) (\<lambda>_. space) None doc"

text \<open>The body of the loop of \<open>text_preprocessing\<close>, for one document.\<close>

definition preprocess_doc :: "env \<Rightarrow> flags \<Rightarrow> pystr \<Rightarrow> pystr" where
  "preprocess_doc e f doc0 =
     (let doc = (if text_lower_case f then str_lower e doc0 else doc0);
          doc = (if isRemoveEmail f then remove_emails e doc else doc);
          doc = (if isRemoveHyperLink f then remove_hyperlink e doc else doc);
          doc = (if isRemoveAccentChar f then remove_accented_chars e doc else doc);
          doc = (if isRemoveDigits f then remove_digits e doc else doc);
          doc = collapse_newlines e doc;
          doc = isolate_special e doc;
          doc = (if text_lemmatization f then lemmatize_text e doc else doc);
          doc = (if isRemoveSpecialCharac f then remove_special_characters e doc else doc);
          doc = collapse_spaces e doc;
          doc = (if stopword_removal f then remove_stopwords e doc (text_lower_case f) else doc)
      in doc)"

text \<open>The loop appends one normalized document for each document of the corpus.\<close>

fun text_preprocessing_loop :: "env \<Rightarrow> flags \<Rightarrow> pystr list \<Rightarrow> pystr list \<Rightarrow> pystr list" where
  "text_preprocessing_loop e f normalized_corpus [] = normalized_corpus"
| "text_preprocessing_loop e f normalized_corpus (doc # corpus) =
     text_preprocessing_loop e f (normalized_corpus @ [preprocess_doc e f doc]) corpus"

definition text_preprocessing :: "env \<Rightarrow> pystr list \<Rightarrow> flags \<Rightarrow> pystr list" where
  "text_preprocessing e corpus f = text_preprocessing_loop e f [] corpus"

section \<open>The cells after the cleaning\<close>

text \<open>
  The flags of the notebook: \<^verbatim>\<open>LEMMETIZE_FLAG\<close> is the only one that is off. They
  are passed by position, in the order of the parameters.
\<close>

definition notebook_flags :: flags where
  "notebook_flags =
     \<lparr> isRemoveEmail = True, isRemoveDigits = True, isRemoveHyperLink = True,
       isRemoveSpecialCharac = True, isRemoveAccentChar = True, text_lower_case = True,
       text_lemmatization = False, stopword_removal = True \<rparr>"

text \<open>\<^verbatim>\<open>df['sentence'].str[:63]\<close>: the slice of every string of the column.\<close>

definition truncate_sentences :: "pystr list \<Rightarrow> pystr list" where
  "truncate_sentences col = map (take 63) col"

text \<open>
  A cell of the column \<^verbatim>\<open>sentence\<close> is a string or, after \<^verbatim>\<open>df.replace\<close>, the
  missing value. A row of the frame is its sentence and its encoded label.
\<close>

datatype cell = Str pystr | NaN

type_synonym row = "cell \<times> nat"

text \<open>\<^verbatim>\<open>df.replace("", nan_value, inplace=True)\<close>; the labels are integers by then.\<close>

definition replace_empty :: "row list \<Rightarrow> row list" where
  "replace_empty df = map (\<lambda>(s, l). (if s = Str [] then NaN else s, l)) df"

text \<open>\<^verbatim>\<open>df.dropna(subset = ["sentence"], inplace=True)\<close>\<close>

definition dropna_sentence :: "row list \<Rightarrow> row list" where
  "dropna_sentence df = filter (\<lambda>(s, l). s \<noteq> NaN) df"

text \<open>
  The frame before the split: the sentences are cleaned with the flags of the
  notebook and sliced, the rows with an empty sentence are dropped.
\<close>

definition retained_rows :: "env \<Rightarrow> (pystr \<times> nat) list \<Rightarrow> row list" where
  "retained_rows e df =
     (let clean_headline = text_preprocessing e (map fst df) notebook_flags;
          sentence = truncate_sentences clean_headline
      in dropna_sentence (replace_empty (zip (map Str sentence) (map snd df))))"

section \<open>The label encoder and the split\<close>

text \<open>
  Modelled from the spec: \<^verbatim>\<open>LabelEncoder\<close> belongs to an external library and is
  not in the source. The spec has it map every label to a dense integer index
  by a deterministic encoding, in first-seen or in sorted order. \<open>classes\<close> is
  the list of the distinct labels in the order of the encoder; the index of a
  label is its position in that list.
\<close>

fun index_of :: "'a list \<Rightarrow> 'a \<Rightarrow> nat" where
  "index_of [] x = 0"
| "index_of (y # ys) x = (if x = y then 0 else Suc (index_of ys x))"

definition fit_transform :: "pystr list \<Rightarrow> pystr list \<Rightarrow> nat list" where
  "fit_transform classes labels = map (index_of classes) labels"

text \<open>The two orders of the spec: sorted, and first seen.\<close>

definition sorted_classes :: "pystr list \<Rightarrow> pystr list" where
  "sorted_classes labels = sort (remdups labels)"

fun first_seen :: "'a list \<Rightarrow> 'a list \<Rightarrow> 'a list" where
  "first_seen seen [] = []"
| "first_seen seen (x # xs) =
     (if x \<in> set seen then first_seen seen xs else x # first_seen (x # seen) xs)"

text \<open>
  \<^verbatim>\<open>df_map.drop_duplicates(subset=None, keep='first')\<close> keeps the first row of each
  group of equal rows; \<^verbatim>\<open>sort_values(by=['label_enc'])\<close> orders the rows by index.
  The file \<^verbatim>\<open>category_map.csv\<close> has the columns \<^verbatim>\<open>label_enc,label\<close>.
\<close>

definition drop_duplicates :: "'a list \<Rightarrow> 'a list" where
  "drop_duplicates rows = first_seen [] rows"

definition category_map :: "pystr list \<Rightarrow> pystr list \<Rightarrow> (nat \<times> pystr) list" where
  "category_map classes labels =
     (let label_enc = fit_transform classes labels;
          df_map = zip label_enc labels;
          df_map = drop_duplicates df_map
      in sort_key fst df_map)"

text \<open>Decoding reads the label of an index from the rows of the file.\<close>

definition decode :: "(nat \<times> pystr) list \<Rightarrow> nat \<Rightarrow> pystr option" where
  "decode rows i = map_of rows i"

text \<open>
  Modelled from the spec: \<^verbatim>\<open>train_test_split\<close> belongs to an external library and
  is not in the source. The spec has it split the rows at random into a
  training and a held-out partition. The random draw is the argument \<open>perm\<close>, an
  arrangement of the row numbers, and \<open>n_test\<close> is the size of the held-out
  part: the first \<open>n_test\<close> numbers of \<open>perm\<close> select the held-out rows and the
  others the training rows.
\<close>

definition split_indices :: "nat list \<Rightarrow> nat \<Rightarrow> nat list \<times> nat list" where
  "split_indices perm n_test = (drop n_test perm, take n_test perm)"

definition train_test_split :: "nat list \<Rightarrow> nat \<Rightarrow> 'a list \<Rightarrow> 'a list \<times> 'a list" where
  "train_test_split perm n_test df =
     (case split_indices perm n_test of
        (ind_train, ind_test) \<Rightarrow> (map (\<lambda>i. df ! i) ind_train, map (\<lambda>i. df ! i) ind_test))"

section \<open>The stages as the specification lists them\<close>

text \<open>
  The specification describes the pipeline as an ordered list of eleven
  operations, eight of them guarded by a flag, applied by a fold. Each entry is
  the flag that guards the operation, if it has one, and the operation. The
  last argument is what the stopword stage receives as \<open>is_lower_case\<close>.
\<close>

definition stage_list :: "env \<Rightarrow> bool \<Rightarrow> ((flags \<Rightarrow> bool) option \<times> (pystr \<Rightarrow> pystr)) list" where
  "stage_list e lc =
     [(Some text_lower_case, str_lower e),
      (Some isRemoveEmail, remove_emails e),
      (Some isRemoveHyperLink, remove_hyperlink e),
      (Some isRemoveAccentChar, remove_accented_chars e),
      (Some isRemoveDigits, remove_digits e),
      (None, collapse_newlines e),
      (None, isolate_special e),
      (Some text_lemmatization, lemmatize_text e),
      (Some isRemoveSpecialCharac, remove_special_characters e),
      (None, collapse_spaces e),
      (Some stopword_removal, \<lambda>doc. remove_stopwords e doc lc)]"

definition enabled :: "flags \<Rightarrow> (flags \<Rightarrow> bool) option \<times> (pystr \<Rightarrow> pystr) \<Rightarrow> bool" where
  "enabled f st = (case fst st of None \<Rightarrow> True | Some toggle \<Rightarrow> toggle f)"

definition run_stages :: "(pystr \<Rightarrow> pystr) list \<Rightarrow> pystr \<Rightarrow> pystr" where
  "run_stages ops doc = fold (\<lambda>op d. op d) ops doc"

section \<open>An instance of the libraries on ASCII\<close>

text \<open>
  An environment for concrete runs. Text is split at white space, as
  \<^verbatim>\<open>str.split()\<close> does, by the tokenizer and by the pipeline \<open>nlp\<close>, which gives
  every word as its own lemma; no code point beyond ASCII is a digit or a
  letter; the stopword list holds a few entries of the English list.
\<close>

fun split_acc :: "pystr \<Rightarrow> pystr \<Rightarrow> pystr list" where
  "split_acc cur [] = (if cur = [] then [] else [cur])"
| "split_acc cur (c # cs) =
     (if uni_space c then (if cur = [] then split_acc [] cs else cur # split_acc [] cs)
      else split_acc (cur @ [c]) cs)"

definition str_split :: "pystr \<Rightarrow> pystr list" where
  "str_split s = split_acc [] s"

definition ascii_env :: env where
  "ascii_env =
     \<lparr> uni_decimal = (\<lambda>c. False), uni_alnum = (\<lambda>c. False), uni_lower = map ascii_lower,
       compat_decomp = (\<lambda>c. []), nlp = (\<lambda>t. map (\<lambda>w. (w, w)) (str_split t)),
       toktok = str_split,
       stopword_list = [lit ''i'', lit ''me'', lit ''my'', lit ''at'', lit ''or'', lit ''the'',
                        lit ''a'', lit ''is''] \<rparr>"

section \<open>Searching, and the digit stage written out\<close>

text \<open>
  \<^verbatim>\<open>re.search(pattern, text) is not None\<close>: the pattern matches at some position
  of the text, the end included.
\<close>

fun rx_search :: "(int \<Rightarrow> bool) \<Rightarrow> atom list \<Rightarrow> int option \<Rightarrow> pystr \<Rightarrow> bool" where
  "rx_search w r prev [] = (case rx_match w r prev [] of Some n \<Rightarrow> True | None \<Rightarrow> False)"
| "rx_search w r prev (c # cs) =
     (case rx_match w r prev (c # cs) of Some n \<Rightarrow> True | None \<Rightarrow> rx_search w r (Some c) cs)"

text \<open>
  What the digit stage does, written as a scan: a white-space character that is
  directly followed by a digit is replaced, together with all the digits that
  follow it, by one space; any other character is copied.
\<close>

function strip_ws_digits :: "env \<Rightarrow> pystr \<Rightarrow> pystr" where
  "strip_ws_digits e [] = []"
| "strip_ws_digits e [c] = [c]"
| "strip_ws_digits e (c # d # s) =
     (if uni_space c \<and> is_digit e d
      then space @ strip_ws_digits e (dropWhile (is_digit e) s)
      else c # strip_ws_digits e (d # s))"
  by pat_completeness auto
termination
  by (relation "measure (\<lambda>(e, s). length s)")
     (auto simp: length_dropWhile_le less_Suc_eq_le le_SucI)

definition no_flags :: flags where
  "no_flags =
     \<lparr> isRemoveEmail = False, isRemoveDigits = False, isRemoveHyperLink = False,
       isRemoveSpecialCharac = False, isRemoveAccentChar = False, text_lower_case = False,
       text_lemmatization = False, stopword_removal = False \<rparr>"

section \<open>The substitutions as scans\<close>

text \<open>
  Two shapes cover five of the seven substitutions. A pattern \<^verbatim>\<open>[class]+\<close>
  with a constant replacement is the scan \<open>squeeze\<close>, which replaces every
  maximal run of the class by the replacement (\<open>b\<close> tells whether the scan is
  inside a run). A pattern of one character class is the scan \<open>expand\<close>, which
  replaces every character of the class on its own. \<open>iso\<close> is what the spacing
  stage makes of one character.
\<close>

fun squeeze :: "(int \<Rightarrow> bool) \<Rightarrow> pystr \<Rightarrow> bool \<Rightarrow> pystr \<Rightarrow> pystr" where
  "squeeze p r b [] = []"
| "squeeze p r b (c # s) =
     (if p c then (if b then squeeze p r True s else r @ squeeze p r True s)
      else c # squeeze p r False s)"

definition expand :: "(int \<Rightarrow> bool) \<Rightarrow> (pystr \<Rightarrow> pystr) \<Rightarrow> pystr \<Rightarrow> pystr" where
  "expand p repl s = concat (map (\<lambda>c. if p c then repl [c] else [c]) s)"

definition iso :: "int \<Rightarrow> pystr" where
  "iso c = (if special_char c then [32, c, 32] else [c])"

text \<open>
  Every full stop of the string stands behind a space; \<open>b\<close> tells whether the
  character before the string is a space.
\<close>

fun guarded_dots :: "bool \<Rightarrow> pystr \<Rightarrow> bool" where
  "guarded_dots b [] = True"
| "guarded_dots b (c # s) = ((c = 46 \<longrightarrow> b) \<and> guarded_dots (c = 32) s)"

text \<open>The hyperlink pattern behind its alternative.\<close>

definition link_tail :: "atom list" where
  "link_tail = [Chr (\<lambda>c. c = ch CHR '':''), Chr (\<lambda>c. c = ch CHR ''/''),
                Chr (\<lambda>c. c = ch CHR ''/''), Star non_space]"

text \<open>
  The class of the newline pattern, and the characters that the
  special-character stage keeps.
\<close>

definition newline_class :: "int \<Rightarrow> bool" where
  "newline_class c = (c = 13 \<or> c = ch CHR ''|'' \<or> c = 10)"

definition plain_char :: "int \<Rightarrow> bool" where
  "plain_char c = (ascii_letter c \<or> uni_space c)"

text \<open>
  Without lemmatization and stopword removal the body of the loop is
  \<open>head_stages\<close>, the five guarded stages up to the digits, followed by
  \<open>tail_stages\<close>, from the newlines to the white space.
\<close>

definition tail_stages :: "env \<Rightarrow> bool \<Rightarrow> pystr \<Rightarrow> pystr" where
  "tail_stages e strip_special doc =
     collapse_spaces e
       ((if strip_special then remove_special_characters e else (\<lambda>d. d))
          (isolate_special e (collapse_newlines e doc)))"

definition head_stages :: "env \<Rightarrow> flags \<Rightarrow> pystr \<Rightarrow> pystr" where
  "head_stages e f doc0 =
     (let doc = (if text_lower_case f then str_lower e doc0 else doc0);
          doc = (if isRemoveEmail f then remove_emails e doc else doc);
          doc = (if isRemoveHyperLink f then remove_hyperlink e doc else doc);
          doc = (if isRemoveAccentChar f then remove_accented_chars e doc else doc);
          doc = (if isRemoveDigits f then remove_digits e doc else doc)
      in doc)"

text \<open>
  \<open>ascii_env\<close> with two entries of the character database: the compatibility
  decomposition of U+2122 TRADE MARK SIGN is \<^verbatim>\<open>TM\<close>, and that of U+FF48 FULLWIDTH
  LATIN SMALL LETTER H is \<^verbatim>\<open>h\<close>.
\<close>

definition sample_env :: env where
  "sample_env =
     ascii_env \<lparr> compat_decomp :=
       (\<lambda>c. if c = 8482 then lit ''TM'' else if c = 65352 then lit ''h'' else []) \<rparr>"

text \<open>
  Two more settings of the flags: the flags of the notebook without accent
  normalization and stopword removal, and all eight flags on.
\<close>

definition plain_flags :: flags where
  "plain_flags =
     \<lparr> isRemoveEmail = True, isRemoveDigits = True, isRemoveHyperLink = True,
       isRemoveSpecialCharac = True, isRemoveAccentChar = False, text_lower_case = True,
       text_lemmatization = False, stopword_removal = False \<rparr>"

definition all_flags :: flags where
  "all_flags =
     \<lparr> isRemoveEmail = True, isRemoveDigits = True, isRemoveHyperLink = True,
       isRemoveSpecialCharac = True, isRemoveAccentChar = True, text_lower_case = True,
       text_lemmatization = True, stopword_removal = True \<rparr>"

section \<open>The text before the lemmatizer and before the stopwords\<close>

text \<open>
  With all flags on, \<open>before_lemmatizer\<close> is the document that \<open>lemmatize_text\<close>
  receives, after the first seven stages, and \<open>stopword_input\<close> the document that
  \<open>remove_stopwords\<close> receives, after the first ten.
\<close>

definition before_lemmatizer :: "env \<Rightarrow> pystr \<Rightarrow> pystr" where
  "before_lemmatizer e doc =
     isolate_special e (collapse_newlines e (head_stages e all_flags doc))"

definition stopword_input :: "env \<Rightarrow> pystr \<Rightarrow> pystr" where
  "stopword_input e doc =
     collapse_spaces e
       (remove_special_characters e (lemmatize_text e (before_lemmatizer e doc)))"

section \<open>Exceptions\<close>










section \<open>Results\<close>

text \<open>
  C10. The result of \<open>remove_stopwords\<close> does not depend on its argument
  \<open>is_lower_case\<close>: for every text and any two truth values the two calls return
  the same string, because the filter always compares the lower-cased token
  with the stopword list.
\<close>

theorem remove_stopwords_ignores_is_lower_case:
  "remove_stopwords e text b1 = remove_stopwords e text b2"
  by (simp add: remove_stopwords_def)

subsection \<open>The loop\<close>

lemma text_preprocessing_loop_map:
  "text_preprocessing_loop e f acc corpus = acc @ map (preprocess_doc e f) corpus"
  by (induction corpus arbitrary: acc) simp_all

lemma text_preprocessing_map:
  "text_preprocessing e corpus f = map (preprocess_doc e f) corpus"
  by (simp add: text_preprocessing_def text_preprocessing_loop_map)

subsection \<open>Order of the stages\<close>

text \<open>
  C1. For every corpus and every setting of the eight flags, \<open>text_preprocessing\<close>
  runs, on each document, exactly the enabled entries of the fixed list: case
  fold, email strip, hyperlink strip, accent normalize, digit strip, newline
  collapse, special-character spacing, lemmatize, special-character strip,
  whitespace collapse, stopword removal. An operation whose flag is false is
  left out, which is the identity on the string, and the order of the list
  does not depend on the flags.
\<close>

theorem text_preprocessing_fixed_order:
  "text_preprocessing e corpus f =
     map (run_stages (map snd (filter (enabled f) (stage_list e (text_lower_case f))))) corpus"
proof -
  have "preprocess_doc e f doc =
          run_stages (map snd (filter (enabled f) (stage_list e (text_lower_case f)))) doc" for doc
    by (cases "text_lower_case f"; cases "isRemoveEmail f"; cases "isRemoveHyperLink f";
        cases "isRemoveAccentChar f"; cases "isRemoveDigits f"; cases "text_lemmatization f";
        cases "isRemoveSpecialCharac f"; cases "stopword_removal f")
       (simp_all add: preprocess_doc_def run_stages_def stage_list_def enabled_def)
  then show ?thesis
    by (simp add: text_preprocessing_map)
qed

subsection \<open>Truncation\<close>

text \<open>
  C2. The slice is applied to the output of \<open>text_preprocessing\<close>, hence after
  every cleaning stage; it keeps the first 63 code points of each cleaned
  document, whatever they are, so it can end inside a token; and every
  resulting sentence has at most 63 code points, which is within the maximum
  length 64 of the configuration.
\<close>

theorem truncation_after_cleaning:
  "truncate_sentences (text_preprocessing e corpus f) =
     map (\<lambda>doc. take 63 (preprocess_doc e f doc)) corpus
   \<and> (\<forall>s \<in> set (truncate_sentences (text_preprocessing e corpus f)).
        length s \<le> 63 \<and> length s \<le> 64)"
  by (auto simp: truncate_sentences_def text_preprocessing_map)


theorem truncation_after_cleaning_witness:
  "truncate_sentences
     (text_preprocessing ascii_env
        [lit ''Breaking: The 3 Senators (and 12 aides) left Washington at noon for an unprecedented intercontinental summit'']
        notebook_flags) =
     [lit ''breaking senators and aides left washington noon for an unprece'']
   \<and> length (lit ''breaking senators and aides left washington noon for an unprece'') \<le> 64"
proof -
  have cleaned:
    "preprocess_doc ascii_env notebook_flags
       (lit ''Breaking: The 3 Senators (and 12 aides) left Washington at noon for an unprecedented intercontinental summit'') =
     lit ''breaking senators and aides left washington noon for an unprecedented intercontinental summit''"
    by code_simp
  show ?thesis
    using truncation_after_cleaning
      [of ascii_env
          "[lit ''Breaking: The 3 Senators (and 12 aides) left Washington at noon for an unprecedented intercontinental summit'']"
          notebook_flags]
    by (simp add: cleaned) (simp add: lit_def)
qed

subsection \<open>Empty sentences\<close>

text \<open>
  C8. A row stays in the frame that is split exactly when its cleaned sentence
  is not the empty string: the empty string becomes the missing value and the
  row is dropped, no error is raised, and every other row is kept, in order,
  with its sliced sentence and its label.
\<close>

theorem empty_sentences_dropped:
  "retained_rows e df =
     map (\<lambda>(s, l). (Str (take 63 (preprocess_doc e notebook_flags s)), l))
         (filter (\<lambda>(s, l). preprocess_doc e notebook_flags s \<noteq> []) df)"
  by (induction df)
     (auto simp: retained_rows_def text_preprocessing_map truncate_sentences_def
                 replace_empty_def dropna_sentence_def)

subsection \<open>Label encoding\<close>

lemma set_first_seen: "set (first_seen seen xs) = set xs - set seen"
  by (induction seen xs rule: first_seen.induct) auto

lemma distinct_first_seen: "distinct (first_seen seen xs)"
  by (induction seen xs rule: first_seen.induct) (auto simp: set_first_seen)

lemma index_of_less: "x \<in> set xs \<Longrightarrow> index_of xs x < length xs"
  by (induction xs) auto

lemma nth_index_of: "x \<in> set xs \<Longrightarrow> xs ! index_of xs x = x"
  by (induction xs) auto

lemma index_of_nth: "distinct xs \<Longrightarrow> i < length xs \<Longrightarrow> index_of xs (xs ! i) = i"
  by (induction xs arbitrary: i) (auto simp: nth_Cons split: nat.splits)

lemma inj_on_index_of: "inj_on (index_of xs) (set xs)"
  by (metis inj_onI nth_index_of)

lemma index_of_image: "distinct xs \<Longrightarrow> index_of xs ` set xs = {..<length xs}"
proof (intro set_eqI iffI)
  fix i assume "i \<in> index_of xs ` set xs"
  then show "i \<in> {..<length xs}" by (auto simp: index_of_less)
next
  fix i assume d: "distinct xs" and "i \<in> {..<length xs}"
  then have "i < length xs" by simp
  with d have "index_of xs (xs ! i) = i" "xs ! i \<in> set xs"
    by (simp_all add: index_of_nth)
  then show "i \<in> index_of xs ` set xs" by (metis image_eqI)
qed

lemma index_of_bij:
  "distinct cls \<Longrightarrow> set cls = set labels \<Longrightarrow>
   bij_betw (index_of cls) (set labels) {..<card (set labels)}"
  by (metis bij_betw_def distinct_card index_of_image inj_on_index_of)

lemma zip_map_self: "zip (map g xs) xs = map (\<lambda>x. (g x, x)) xs"
  by (induction xs) simp_all

lemma set_category_map:
  "set (category_map classes labels) = (\<lambda>l. (index_of classes l, l)) ` set labels"
  by (simp add: category_map_def drop_duplicates_def set_first_seen fit_transform_def
                zip_map_self)

lemma distinct_category_keys:
  assumes "set classes = set labels"
  shows "distinct (map fst (category_map classes labels))"
proof -
  have "distinct (category_map classes labels)"
    by (simp add: category_map_def drop_duplicates_def distinct_first_seen)
  moreover have "inj_on fst (set (category_map classes labels))"
  proof (rule inj_onI)
    fix p q
    assume "p \<in> set (category_map classes labels)" "q \<in> set (category_map classes labels)"
      and eq: "fst p = fst q"
    then obtain l k where p: "p = (index_of classes l, l)" "l \<in> set labels"
      and q: "q = (index_of classes k, k)" "k \<in> set labels"
      by (auto simp: set_category_map)
    with eq assms have "l = k"
      by (metis fst_conv inj_onD inj_on_index_of)
    with p q show "p = q" by simp
  qed
  ultimately show ?thesis by (simp add: distinct_map)
qed

lemma decode_category_map:
  "set classes = set labels \<Longrightarrow> l \<in> set labels \<Longrightarrow>
   decode (category_map classes labels) (index_of classes l) = Some l"
  unfolding decode_def
  by (rule map_of_is_SomeI) (simp_all add: distinct_category_keys set_category_map)

lemma classes_orders:
  "classes = sorted_classes labels \<or> classes = first_seen [] labels \<Longrightarrow>
   distinct classes \<and> set classes = set labels"
  by (auto simp: sorted_classes_def set_first_seen distinct_first_seen)

text \<open>
  C5. Whether the encoder numbers the distinct labels in sorted or in
  first-seen order, the index is a bijection between the labels that occur and
  the integers below their number; the rows of the mapping file are sorted by
  index; and decoding the index of a label through the file gives the label
  back.
\<close>

theorem label_encoding_roundtrip:
  assumes "classes = sorted_classes labels \<or> classes = first_seen [] labels"
  shows "bij_betw (index_of classes) (set labels) {..<card (set labels)}
       \<and> sorted (map fst (category_map classes labels))
       \<and> (\<forall>l \<in> set labels.
            decode (category_map classes labels) (index_of classes l) = Some l)"
proof -
  from assms have c: "distinct classes" "set classes = set labels"
    by (simp_all add: classes_orders)
  have "sorted (map fst (category_map classes labels))"
    by (simp add: category_map_def)
  with c show ?thesis
    by (simp add: index_of_bij decode_category_map)
qed

theorem label_encoding_roundtrip_witness:
  "fit_transform (sorted_classes [lit ''POLITICS'', lit ''SPORTS'', lit ''POLITICS''])
     [lit ''POLITICS'', lit ''SPORTS'', lit ''POLITICS''] = [0, 1, 0]
   \<and> decode (category_map (sorted_classes [lit ''POLITICS'', lit ''SPORTS'', lit ''POLITICS''])
                           [lit ''POLITICS'', lit ''SPORTS'', lit ''POLITICS''])
        (index_of (sorted_classes [lit ''POLITICS'', lit ''SPORTS'', lit ''POLITICS''])
                  (lit ''SPORTS'')) = Some (lit ''SPORTS'')"
proof -
  have enc: "fit_transform (sorted_classes [lit ''POLITICS'', lit ''SPORTS'', lit ''POLITICS''])
     [lit ''POLITICS'', lit ''SPORTS'', lit ''POLITICS''] = [0, 1, 0]"
    by code_simp
  have "\<forall>l \<in> set [lit ''POLITICS'', lit ''SPORTS'', lit ''POLITICS''].
          decode (category_map (sorted_classes [lit ''POLITICS'', lit ''SPORTS'', lit ''POLITICS''])
                               [lit ''POLITICS'', lit ''SPORTS'', lit ''POLITICS''])
            (index_of (sorted_classes [lit ''POLITICS'', lit ''SPORTS'', lit ''POLITICS'']) l) = Some l"
    using label_encoding_roundtrip
      [of "sorted_classes [lit ''POLITICS'', lit ''SPORTS'', lit ''POLITICS'']"
          "[lit ''POLITICS'', lit ''SPORTS'', lit ''POLITICS'']"]
    by blast
  with enc show ?thesis by simp
qed

subsection \<open>The split\<close>

text \<open>
  C7. For every frame of N rows and every random arrangement of its row
  numbers, the training and the held-out partition have N rows together, they
  hold the rows of the frame with their multiplicities, and every row number is
  in exactly one of the two: no row is duplicated or dropped.
\<close>

theorem split_partitions_rows:
  assumes "mset perm = mset [0..<length df]"
  shows "(case train_test_split perm n_test df of
            (train, test) \<Rightarrow>
              length train + length test = length df \<and> mset train + mset test = mset df)
       \<and> (case split_indices perm n_test of
            (ind_train, ind_test) \<Rightarrow>
              distinct (ind_train @ ind_test) \<and> set (ind_train @ ind_test) = {..<length df})"
proof -
  have len: "length perm = length df"
    using assms by (metis length_upt mset_eq_length minus_nat.diff_0)
  have d: "distinct perm"
    using assms by (metis distinct_upt mset_eq_imp_distinct_iff)
  have s: "set perm = {..<length df}"
    using assms by (metis atLeast_upt mset_eq_setD)
  have "mset (map (\<lambda>i. df ! i) (drop n_test perm)) + mset (map (\<lambda>i. df ! i) (take n_test perm))
        = mset (map (\<lambda>i. df ! i) (take n_test perm @ drop n_test perm))"
    by (simp del: append_take_drop_id)
  also have "\<dots> = image_mset (\<lambda>i. df ! i) (mset [0..<length df])"
    using assms by simp
  also have "\<dots> = mset (map (\<lambda>i. df ! i) [0..<length df])"
    by simp
  also have "\<dots> = mset df"
    by (simp add: map_nth)
  finally have rows:
    "mset (map (\<lambda>i. df ! i) (drop n_test perm)) + mset (map (\<lambda>i. df ! i) (take n_test perm))
     = mset df" .
  have "distinct (drop n_test perm @ take n_test perm)"
    using d by (metis append_take_drop_id distinct_append inf_commute)
  moreover have "set (drop n_test perm @ take n_test perm) = set perm"
    by (metis append_take_drop_id set_append sup_commute)
  ultimately show ?thesis
    using len s rows by (simp add: train_test_split_def split_indices_def)
qed

theorem split_partitions_rows_witness:
  "mset [2, 0, 3, 1] = mset [0..<length [lit ''a'', lit ''b'', lit ''c'', lit ''d'']]
   \<and> train_test_split [2, 0, 3, 1] 1 [lit ''a'', lit ''b'', lit ''c'', lit ''d''] =
       ([lit ''a'', lit ''d'', lit ''b''], [lit ''c''])
   \<and> mset [lit ''a'', lit ''d'', lit ''b''] + mset [lit ''c''] =
       mset [lit ''a'', lit ''b'', lit ''c'', lit ''d'']"
proof -
  have h: "mset [2, 0, 3, 1] = mset [0..<length [lit ''a'', lit ''b'', lit ''c'', lit ''d'']]"
    by (simp add: upt_rec numeral_2_eq_2 numeral_3_eq_3)
  have t: "train_test_split [2, 0, 3, 1] 1 [lit ''a'', lit ''b'', lit ''c'', lit ''d''] =
       ([lit ''a'', lit ''d'', lit ''b''], [lit ''c''])"
    by (simp add: train_test_split_def split_indices_def)
  show ?thesis
    using split_partitions_rows [OF h, of 1] h t by simp
qed

subsection \<open>Matching a repetition at the end of a pattern\<close>

lemma first_some_map_Some:
  "first_some (map Some xs) = (case xs of [] \<Rightarrow> None | x # _ \<Rightarrow> Some x)"
  by (cases xs) simp_all

lemma rx_match_Plus_last:
  "rx_match w [Plus p] prev s =
     (if takeWhile p s = [] then None else Some (length (takeWhile p s)))"
proof -
  have "rx_match w [Plus p] prev s =
          first_some (map Some (rev [1..<Suc (length (takeWhile p s))]))"
    by (simp add: comp_def)
  then show ?thesis
    by (cases "takeWhile p s") (simp_all add: first_some_map_Some)
qed

subsection \<open>The digit stage\<close>

lemma rx_match_digits:
  "rx_match w (digits_rx e) prev s =
     (case s of
        c # d # r \<Rightarrow>
          if uni_space c \<and> is_digit e d
          then Some (Suc (Suc (length (takeWhile (is_digit e) r)))) else None
      | _ \<Rightarrow> None)"
  by (auto simp: digits_rx_def rx_match_Plus_last split: list.splits)

lemma re_sub_digits:
  "re_sub (rx_match w (digits_rx e)) (\<lambda>_. space) prev s = strip_ws_digits e s"
proof (induction e s arbitrary: prev rule: strip_ws_digits.induct)
  case (1 e)
  then show ?case by simp
next
  case (2 e c)
  then show ?case by (simp add: rx_match_digits)
next
  case (3 e c d s)
  then show ?case
    by (simp add: rx_match_digits dropWhile_eq_drop)
qed

text \<open>
  C6, as stated, fails: in \<^verbatim>\<open>the 3rd man\<close> there is no numeric token, yet the
  digit of the token \<^verbatim>\<open>3rd\<close> is removed.
\<close>

theorem remove_digits_embedded_counterexample:
  "remove_digits ascii_env (lit ''the 3rd man'') = lit ''the rd man''
   \<and> remove_digits ascii_env (lit ''the 3rd man'') \<noteq> lit ''the 3rd man''"
  by code_simp

text \<open>
  C6, amended. For every input string the digit stage is the scan
  \<open>strip_ws_digits\<close>: from left to right, each white-space character directly
  followed by a digit is replaced, with the whole run of digits after it, by a
  single space, whether or not the run is a whole token; every other
  character, so every digit that is not directly preceded by white space or by
  a removed digit, is left as it is.
\<close>

theorem remove_digits_scan:
  "remove_digits e text = strip_ws_digits e text"
  by (simp add: remove_digits_def re_sub_digits)

subsection \<open>A pattern that matches nowhere\<close>

lemma re_sub_no_match:
  "\<not> rx_search w r prev s \<Longrightarrow> re_sub (rx_match w r) repl prev s = s"
  by (induction s arbitrary: prev) (auto split: option.splits)

subsection \<open>The substitutions as scans\<close>

lemma rx_match_Chr_last:
  "rx_match w [Chr p] prev s = (case s of [] \<Rightarrow> None | c # cs \<Rightarrow> if p c then Some 1 else None)"
  by (simp split: list.splits)

lemma re_sub_Chr:
  "re_sub (rx_match w [Chr p]) repl prev s = expand p repl s"
  by (induction s arbitrary: prev) (simp_all add: expand_def prev_after_def)

lemma squeeze_True_dropWhile: "squeeze p r True s = squeeze p r False (dropWhile p s)"
  by (induction s) simp_all

lemma re_sub_Plus:
  "re_sub (rx_match w [Plus p]) (\<lambda>_. r) prev s = squeeze p r False s"
proof (induction "length s" arbitrary: s prev rule: less_induct)
  case less
  show ?case
  proof (cases s)
    case Nil
    then show ?thesis by simp
  next
    case (Cons c cs)
    show ?thesis
    proof (cases "p c")
      case True
      have "length (dropWhile p cs) < length s"
        using Cons by (simp add: length_dropWhile_le less_Suc_eq_le)
      then have "re_sub (rx_match w [Plus p]) (\<lambda>_. r) (prev_after prev (c # cs) (Suc (length (takeWhile p cs)))) (dropWhile p cs)
                 = squeeze p r False (dropWhile p cs)"
        using less by blast
      with True Cons show ?thesis
        by (simp add: rx_match_Plus_last dropWhile_eq_drop squeeze_True_dropWhile)
    next
      case False
      with Cons less show ?thesis
        by (simp add: rx_match_Plus_last)
    qed
  qed
qed

lemma set_re_sub:
  "(\<And>g. set (repl g) \<subseteq> insert 32 (set g)) \<Longrightarrow>
   set (re_sub m repl prev s) \<subseteq> insert 32 (set s)"
proof (induction m repl prev s rule: re_sub.induct)
  case (1 m repl prev)
  then show ?case by simp
next
  case (2 m repl prev c cs)
  note rp = "2.prems"
  show ?case
  proof (cases "m prev (c # cs)")
    case None
    with 2 show ?thesis by auto
  next
    case (Some k)
    show ?thesis
    proof (cases k)
      case 0
      with Some 2 show ?thesis by auto
    next
      case (Suc n)
      have "set (repl (take (Suc n) (c # cs))) \<subseteq> insert 32 (set (take (Suc n) (c # cs)))"
        by (rule rp)
      also have "\<dots> \<subseteq> insert 32 (set (c # cs))"
        by (rule insert_mono) (rule set_take_subset)
      finally have a: "set (repl (take (Suc n) (c # cs))) \<subseteq> insert 32 (set (c # cs))" .
      have "set (re_sub m repl (prev_after prev (c # cs) (Suc n)) (drop n cs)) \<subseteq> insert 32 (set (drop n cs))"
        using "2.IH" Some Suc rp by blast
      also have "\<dots> \<subseteq> insert 32 (set (c # cs))"
        using set_drop_subset[of n cs] by auto
      finally show ?thesis using a Some Suc by simp
    qed
  qed
qed

subsection \<open>Spacing and collapsing twice\<close>

lemma squeeze_append:
  "squeeze p r b (xs @ ys) =
     squeeze p r b xs @ squeeze p r (if xs = [] then b else p (last xs)) ys"
  by (induction xs arbitrary: b) simp_all

lemma squeeze_expand_squeeze:
  assumes f32: "f 32 = [32]"
  shows "(b2 \<longrightarrow> b1) \<Longrightarrow>
         squeeze (\<lambda>c. c = 32) [32] b1 (concat (map f (squeeze (\<lambda>c. c = 32) [32] b2 t))) =
         squeeze (\<lambda>c. c = 32) [32] b1 (concat (map f t))"
proof (induction t arbitrary: b1 b2)
  case Nil
  then show ?case by simp
next
  case (Cons c t)
  show ?case
  proof (cases "c = 32")
    case True
    with Cons.prems Cons.IH[of True True] show ?thesis
      by (cases b2; cases b1) (simp_all add: f32)
  next
    case False
    then show ?thesis
      using Cons.IH[of False "if f c = [] then b1 else last (f c) = 32"]
      by (simp add: squeeze_append)
  qed
qed

lemma special_not_space: "special_char c \<Longrightarrow> c \<noteq> 32"
  by (auto simp: special_char_def)

lemma squeeze_iso_iso:
  "squeeze (\<lambda>c. c = 32) [32] b (concat (map iso (concat (map iso t)))) =
   squeeze (\<lambda>c. c = 32) [32] b (concat (map iso t))"
proof (induction t arbitrary: b)
  case Nil
  then show ?case by simp
next
  case (Cons c t)
  show ?case
  proof (cases "special_char c")
    case True
    then have "c \<noteq> 32" by (rule special_not_space)
    moreover have "\<not> special_char 32" by (simp add: special_char_def)
    ultimately show ?thesis
      using True Cons.IH[of True] by (simp add: iso_def)
  next
    case False
    with Cons.IH show ?thesis by (simp add: iso_def)
  qed
qed

lemma squeeze_squeeze:
  "squeeze (\<lambda>c. c = 32) [32] b (squeeze (\<lambda>c. c = 32) [32] b t) = squeeze (\<lambda>c. c = 32) [32] b t"
  using squeeze_expand_squeeze[of "\<lambda>c. [c]" b b t] by simp

lemma squeeze_id: "\<forall>c \<in> set s. \<not> p c \<Longrightarrow> squeeze p r b s = s"
  by (induction s arbitrary: b) simp_all

lemma squeeze_no_class: "\<forall>c \<in> set r. \<not> p c \<Longrightarrow> \<forall>c \<in> set (squeeze p r b s). \<not> p c"
  by (induction s arbitrary: b) auto

lemma expand_id: "\<forall>c \<in> set s. \<not> p c \<Longrightarrow> expand p repl s = s"
  by (induction s) (simp_all add: expand_def)

lemma isolate_special_iso: "isolate_special e doc = concat (map iso doc)"
proof -
  have "iso = (\<lambda>c. if special_char c then space @ [c] @ space else [c])"
    by (rule ext) (simp add: iso_def space_def)
  then show ?thesis
    by (simp add: isolate_special_def special_char_pattern_def re_sub_Chr expand_def)
qed

lemma collapse_spaces_squeeze: "collapse_spaces e doc = squeeze (\<lambda>c. c = 32) [32] False doc"
  by (simp add: collapse_spaces_def spaces_rx_def re_sub_Plus space_def)

lemma spacing_idem:
  "collapse_spaces e (isolate_special e (collapse_spaces e (isolate_special e n))) =
   collapse_spaces e (isolate_special e n)"
proof -
  have "iso 32 = [32]" by (simp add: iso_def special_char_def)
  then have "squeeze (\<lambda>c. c = 32) [32] False (concat (map iso (squeeze (\<lambda>c. c = 32) [32] False (concat (map iso n))))) =
        squeeze (\<lambda>c. c = 32) [32] False (concat (map iso (concat (map iso n))))"
    using squeeze_expand_squeeze[of iso False False "concat (map iso n)"] by simp
  then show ?thesis
    by (simp add: isolate_special_iso collapse_spaces_squeeze squeeze_iso_iso)
qed

subsection \<open>What a match of the email pattern needs\<close>

lemma first_some_SomeD: "first_some xs = Some y \<Longrightarrow> Some y \<in> set xs"
  by (induction xs rule: first_some.induct) simp_all

lemma rx_match_PlusD:
  assumes "rx_match w (Plus p # r) prev s = Some n"
  shows "\<exists>k. 1 \<le> k \<and> k \<le> length (takeWhile p s)
             \<and> rx_match w r (prev_after prev s k) (drop k s) \<noteq> None"
proof -
  let ?attempt = "\<lambda>n. map_option ((+) n) (rx_match w r (prev_after prev s n) (drop n s))"
  from assms have "Some n \<in> set (map ?attempt (rev [1 ..< Suc (length (takeWhile p s))]))"
    by (intro first_some_SomeD) (simp only: rx_match.simps)
  then have "Some n \<in> ?attempt ` set [1 ..< Suc (length (takeWhile p s))]"
    by (simp only: set_map set_rev)
  then obtain k where k: "k \<in> set [1 ..< Suc (length (takeWhile p s))]" and "Some n = ?attempt k"
    by (rule imageE)
  then have "rx_match w r (prev_after prev s k) (drop k s) \<noteq> None"
    by (cases "rx_match w r (prev_after prev s k) (drop k s)") simp_all
  moreover from k have "1 \<le> k \<and> k \<le> length (takeWhile p s)"
    by (simp only: set_upt atLeastLessThan_iff less_Suc_eq_le)
  ultimately show ?thesis by blast
qed

lemma rx_match_ChrD:
  assumes "rx_match w (Chr p # r) prev s \<noteq> None"
  shows "\<exists>c cs. s = c # cs \<and> p c \<and> rx_match w r (Some c) cs \<noteq> None"
  using assms by (cases s) (auto split: if_splits)

lemma takeWhile_take_all:
  "k \<le> length (takeWhile p s) \<Longrightarrow> \<forall>c \<in> set (take k s). p c"
  by (induction s arbitrary: k) (auto simp: take_Cons split: nat.splits if_splits)

lemma rx_match_email_dot:
  assumes "rx_match w email_rx prev t = Some n"
  shows "\<exists>u c v. t = u @ c # 46 # v \<and> non_space c"
proof -
  let ?r2 = "[Plus non_space, Chr (\<lambda>c. c = ch CHR ''.''), Plus non_space, WordB]"
  let ?r3 = "[Plus non_space, WordB]"
  from assms have "rx_match w (Plus non_space # Chr (\<lambda>c. c = ch CHR ''@'') # ?r2) prev t = Some n"
    by (simp add: email_rx_def split: if_splits)
  then obtain k1 where "rx_match w (Chr (\<lambda>c. c = ch CHR ''@'') # ?r2) (prev_after prev t k1) (drop k1 t) \<noteq> None"
    using rx_match_PlusD by blast
  then obtain a s2 where s2: "drop k1 t = a # s2"
    and m2: "rx_match w (Plus non_space # Chr (\<lambda>c. c = ch CHR ''.'') # ?r3) (Some a) s2 \<noteq> None"
    using rx_match_ChrD by blast
  then obtain k2 where k2: "1 \<le> k2" "k2 \<le> length (takeWhile non_space s2)"
    and m3: "rx_match w (Chr (\<lambda>c. c = ch CHR ''.'') # ?r3) (prev_after (Some a) s2 k2) (drop k2 s2) \<noteq> None"
    using rx_match_PlusD by (metis not_None_eq)
  then obtain d s3 where s3: "drop k2 s2 = d # s3" and d: "d = 46"
    using rx_match_ChrD by fastforce
  from k2 have ne: "take k2 s2 \<noteq> []"
    by (cases s2) auto
  have "\<forall>c \<in> set (take k2 s2). non_space c"
    using k2 by (simp add: takeWhile_take_all)
  with ne have ns: "non_space (last (take k2 s2))"
    by simp
  have "s2 = take k2 s2 @ drop k2 s2" by simp
  also have "\<dots> = butlast (take k2 s2) @ last (take k2 s2) # 46 # s3"
    using ne s3 d by simp
  finally have "s2 = butlast (take k2 s2) @ last (take k2 s2) # 46 # s3" .
  moreover have "t = take k1 t @ a # s2"
    using s2 by (metis append_take_drop_id)
  ultimately have "t = (take k1 t @ a # butlast (take k2 s2)) @ last (take k2 s2) # 46 # s3"
    by simp
  with ns show ?thesis by blast
qed

lemma guarded_dots_infix:
  "guarded_dots b s \<Longrightarrow> s = u @ c # 46 # v \<Longrightarrow> c = 32"
  by (induction u arbitrary: b s) auto

lemma guarded_dots_no_email:
  "guarded_dots b s \<Longrightarrow> \<not> rx_search w email_rx prev s"
proof (induction s arbitrary: b prev)
  case Nil
  then show ?case
    by (auto simp: email_rx_def dest: rx_match_email_dot split: option.splits)
next
  case (Cons c s)
  have "rx_match w email_rx prev (c # s) = None"
  proof (rule ccontr)
    assume "rx_match w email_rx prev (c # s) \<noteq> None"
    then obtain n where "rx_match w email_rx prev (c # s) = Some n" by auto
    then obtain u x v where "c # s = u @ x # 46 # v" "non_space x"
      using rx_match_email_dot by blast
    with Cons.prems have "x = 32" "non_space x"
      using guarded_dots_infix by blast+
    then show False by (simp add: non_space_def uni_space_def)
  qed
  moreover have "\<not> rx_search w email_rx (Some c) s"
    using Cons by auto
  ultimately show ?case by simp
qed

lemma guarded_dots_no_dot: "46 \<notin> set s \<Longrightarrow> guarded_dots b s"
  by (induction s arbitrary: b) auto

lemma guarded_dots_iso: "guarded_dots b (concat (map iso t))"
  by (induction t arbitrary: b) (auto simp: iso_def special_char_def)

lemma guarded_dots_squeeze:
  "guarded_dots b s \<Longrightarrow> (b2 \<longrightarrow> b) \<Longrightarrow> guarded_dots b (squeeze (\<lambda>c. c = 32) [32] b2 s)"
  by (induction s arbitrary: b b2) auto

subsection \<open>What a match of the hyperlink pattern needs\<close>

lemma rx_match_Star_last:
  "rx_match w [Star p] prev s = Some (length (takeWhile p s))"
proof -
  have "rx_match w [Star p] prev s =
          first_some (map Some (rev [0..<Suc (length (takeWhile p s))]))"
    by (simp add: comp_def)
  then show ?thesis
    by (simp add: first_some_map_Some)
qed

lemma rx_match_link_tail:
  "rx_match w link_tail prev s \<noteq> None \<longleftrightarrow> prefix (lit ''://'') s"
  by (cases s rule: list.exhaust[of _ , case_names Nil Cons])
     (auto simp: link_tail_def lit_def rx_match_Star_last prefix_Cons simp del: rx_match.simps(4) split: list.splits)

lemma prefix_append_drop:
  "prefix (a @ b) s \<longleftrightarrow> prefix a s \<and> prefix b (drop (length a) s)"
  by (auto simp: prefix_def)

lemma rx_match_AltD:
  assumes "rx_match w (Alt ls # r) prev s = Some n"
  shows "\<exists>l \<in> set ls. prefix l s \<and>
           (\<exists>k. rx_match w r (prev_after prev s (length l)) (drop (length l) s) = Some k
                \<and> n = length l + k)"
proof -
  let ?attempt = "\<lambda>l. if prefix l s
                  then map_option ((+) (length l))
                         (rx_match w r (prev_after prev s (length l)) (drop (length l) s))
                  else None"
  from assms have "Some n \<in> set (map ?attempt ls)"
    by (intro first_some_SomeD) (simp only: rx_match.simps)
  then obtain l where l: "l \<in> set ls" and "Some n = ?attempt l"
    by auto
  then have "prefix l s \<and>
           (\<exists>k. rx_match w r (prev_after prev s (length l)) (drop (length l) s) = Some k
                \<and> n = length l + k)"
    by (cases "prefix l s";
        cases "rx_match w r (prev_after prev s (length l)) (drop (length l) s)") auto
  with l show ?thesis by blast
qed

lemma hyperlink_rx_alt: "hyperlink_rx = Alt [lit ''http'', lit ''https''] # link_tail"
  by (simp add: hyperlink_rx_def link_tail_def)

lemma rx_match_hyperlink_prefix:
  assumes "rx_match w hyperlink_rx prev s = Some n"
  shows "(prefix (lit ''http://'') s \<or> prefix (lit ''https://'') s) \<and> 0 < n"
proof -
  from assms obtain l k where l: "l \<in> set [lit ''http'', lit ''https'']" "prefix l s"
    and k: "rx_match w link_tail (prev_after prev s (length l)) (drop (length l) s) = Some k"
    and n: "n = length l + k"
    unfolding hyperlink_rx_alt using rx_match_AltD by blast
  from k have "prefix (lit ''://'') (drop (length l) s)"
    using rx_match_link_tail[of w] by auto
  with l(2) have "prefix (l @ lit ''://'') s"
    by (simp add: prefix_append_drop)
  moreover have "lit ''http://'' = lit ''http'' @ lit ''://''"
    and "lit ''https://'' = lit ''https'' @ lit ''://''"
    by (simp_all add: lit_def)
  moreover from l(1) n have "0 < n" by (auto simp: lit_def)
  ultimately show ?thesis using l(1) by auto
qed

lemma rx_match_hyperlink_http:
  "\<exists>n. rx_match w hyperlink_rx prev (lit ''http://'' @ t) = Some (Suc n)"
  by (simp add: hyperlink_rx_def lit_def rx_match_Star_last del: rx_match.simps(4))

lemma rx_match_hyperlink_https:
  "\<exists>n. rx_match w hyperlink_rx prev (lit ''https://'' @ t) = Some (Suc n)"
  by (simp add: hyperlink_rx_def lit_def rx_match_Star_last del: rx_match.simps(4))

subsection \<open>Substrings that a substitution cannot create\<close>

lemma re_sub_skip:
  "\<forall>n. m prev (c # cs) \<noteq> Some (Suc n) \<Longrightarrow>
   re_sub m repl prev (c # cs) = c # re_sub m repl (Some c) cs"
  by (auto split: option.splits nat.splits)

lemma re_sub_hit:
  "m prev (c # cs) = Some (Suc n) \<Longrightarrow>
   re_sub m repl prev (c # cs) =
     repl (take (Suc n) (c # cs)) @ re_sub m repl (prev_after prev (c # cs) (Suc n)) (drop n cs)"
  by simp

lemma re_sub_cases [case_names Nil Skip Hit]:
  assumes "\<And>prev. P prev []"
    and "\<And>prev c cs. \<forall>n. m prev (c # cs) \<noteq> Some (Suc n) \<Longrightarrow> P (Some c) cs \<Longrightarrow> P prev (c # cs)"
    and "\<And>prev c cs n. m prev (c # cs) = Some (Suc n) \<Longrightarrow>
           P (prev_after prev (c # cs) (Suc n)) (drop n cs) \<Longrightarrow> P prev (c # cs)"
  shows "P prev s"
proof (induction "length s" arbitrary: s prev rule: less_induct)
  case less
  show ?case
  proof (cases s)
    case Nil
    then show ?thesis by (simp add: assms(1))
  next
    case (Cons c cs)
    show ?thesis
    proof (cases "\<exists>n. m prev (c # cs) = Some (Suc n)")
      case True
      then obtain n where n: "m prev (c # cs) = Some (Suc n)" by blast
      have "length (drop n cs) < length s" using Cons by simp
      then have "P (prev_after prev (c # cs) (Suc n)) (drop n cs)" by (rule less)
      with n Cons show ?thesis by (simp add: assms(3))
    next
      case False
      have "P (Some c) cs" using Cons by (intro less) simp
      with False Cons show ?thesis by (simp add: assms(2))
    qed
  qed
qed

lemma prefix_re_sub_const:
  assumes "r \<noteq> []"
  shows "hd r \<notin> set Q \<Longrightarrow> prefix Q (re_sub m (\<lambda>_. r) prev s) \<Longrightarrow> prefix Q s"
proof (induction prev s arbitrary: Q rule: re_sub_cases[where m = m])
  case (Nil prev)
  then show ?case by simp
next
  case (Skip prev c cs)
  have eq: "re_sub m (\<lambda>_. r) prev (c # cs) = c # re_sub m (\<lambda>_. r) (Some c) cs"
    using Skip.hyps by (rule re_sub_skip)
  from Skip.prems Skip.IH show ?case
    unfolding eq by (cases Q) auto
next
  case (Hit prev c cs n)
  have eq: "re_sub m (\<lambda>_. r) prev (c # cs) =
              r @ re_sub m (\<lambda>_. r) (prev_after prev (c # cs) (Suc n)) (drop n cs)"
    using Hit.hyps by (rule re_sub_hit)
  from Hit.prems show ?case
    unfolding eq using assms by (cases Q; cases r) auto
qed

lemma sublist_skip_foreign:
  "set xs \<inter> set P = {} \<Longrightarrow> P \<noteq> [] \<Longrightarrow> sublist P (xs @ ys) \<Longrightarrow> sublist P ys"
proof (induction xs)
  case Nil
  then show ?case by simp
next
  case (Cons x xs)
  from Cons.prems have "\<not> prefix P (x # xs @ ys)"
    by (cases P) auto
  with Cons show ?case
    by (auto simp: sublist_Cons_right)
qed

lemma sublist_dropD: "sublist P (drop n xs) \<Longrightarrow> sublist P xs"
proof -
  assume "sublist P (drop n xs)"
  then obtain ps ss where "drop n xs = ps @ P @ ss"
    by (auto simp: sublist_def)
  then have "xs = (take n xs @ ps) @ P @ ss"
    by (metis append.assoc append_take_drop_id)
  then show ?thesis
    unfolding sublist_def by blast
qed

lemma sublist_re_sub_const:
  assumes "r \<noteq> []" "set r \<inter> set P = {}" "P \<noteq> []"
  shows "sublist P (re_sub m (\<lambda>_. r) prev s) \<Longrightarrow> sublist P s"
proof (induction prev s rule: re_sub_cases[where m = m])
  case (Nil prev)
  then show ?case by simp
next
  case (Skip prev c cs)
  have h: "hd r \<notin> set P" using assms by (cases r) auto
  have eq: "re_sub m (\<lambda>_. r) prev (c # cs) = c # re_sub m (\<lambda>_. r) (Some c) cs"
    using Skip.hyps by (rule re_sub_skip)
  from Skip.prems have "prefix P (re_sub m (\<lambda>_. r) prev (c # cs)) \<or> sublist P (re_sub m (\<lambda>_. r) (Some c) cs)"
    unfolding eq by (simp add: sublist_Cons_right)
  then show ?case
  proof
    assume "prefix P (re_sub m (\<lambda>_. r) prev (c # cs))"
    then have "prefix P (c # cs)" by (rule prefix_re_sub_const[OF assms(1) h])
    then show ?thesis by (rule prefix_imp_sublist)
  next
    assume "sublist P (re_sub m (\<lambda>_. r) (Some c) cs)"
    then have "sublist P cs" by (rule Skip.IH)
    then show ?thesis by (simp add: sublist_Cons_right)
  qed
next
  case (Hit prev c cs n)
  have eq: "re_sub m (\<lambda>_. r) prev (c # cs) =
              r @ re_sub m (\<lambda>_. r) (prev_after prev (c # cs) (Suc n)) (drop n cs)"
    using Hit.hyps by (rule re_sub_hit)
  from Hit.prems have "sublist P (r @ re_sub m (\<lambda>_. r) (prev_after prev (c # cs) (Suc n)) (drop n cs))"
    unfolding eq .
  then have "sublist P (re_sub m (\<lambda>_. r) (prev_after prev (c # cs) (Suc n)) (drop n cs))"
    by (rule sublist_skip_foreign[OF assms(2) assms(3)])
  then have "sublist P (drop n cs)" by (rule Hit.IH)
  then have "sublist P cs"
    by (rule sublist_dropD)
  then show ?case by (simp add: sublist_Cons_right)
qed

lemma no_sublist_re_sub_const:
  assumes hit: "\<And>prev t. prefix P t \<Longrightarrow> \<exists>n. m prev t = Some (Suc n)"
    and "r \<noteq> []" "set r \<inter> set P = {}" "P \<noteq> []"
  shows "\<not> sublist P (re_sub m (\<lambda>_. r) prev s)"
proof (induction prev s rule: re_sub_cases[where m = m])
  case (Nil prev)
  then show ?case using assms(4) by simp
next
  case (Skip prev c cs)
  have h: "hd r \<notin> set P" using assms by (cases r) auto
  have "\<not> prefix P (re_sub m (\<lambda>_. r) prev (c # cs))"
  proof
    assume "prefix P (re_sub m (\<lambda>_. r) prev (c # cs))"
    then have "prefix P (c # cs)" by (rule prefix_re_sub_const[OF assms(2) h])
    then show False using hit Skip.hyps by blast
  qed
  moreover have eq: "re_sub m (\<lambda>_. r) prev (c # cs) = c # re_sub m (\<lambda>_. r) (Some c) cs"
    using Skip.hyps by (rule re_sub_skip)
  ultimately show ?case
    using Skip.IH unfolding eq by (simp add: sublist_Cons_right)
next
  case (Hit prev c cs n)
  show ?case
  proof
    assume "sublist P (re_sub m (\<lambda>_. r) prev (c # cs))"
    then have "sublist P (r @ re_sub m (\<lambda>_. r) (prev_after prev (c # cs) (Suc n)) (drop n cs))"
      using re_sub_hit[where m = m and repl = "\<lambda>_. r", OF Hit.hyps] by simp
    then have "sublist P (re_sub m (\<lambda>_. r) (prev_after prev (c # cs) (Suc n)) (drop n cs))"
      by (rule sublist_skip_foreign[OF assms(3) assms(4)])
    with Hit.IH show False by simp
  qed
qed

lemma prefix_iso:
  "\<forall>c \<in> set Q. \<not> special_char c \<and> c \<noteq> 32 \<Longrightarrow> prefix Q (concat (map iso s)) \<Longrightarrow> prefix Q s"
proof (induction s arbitrary: Q)
  case Nil
  then show ?case by simp
next
  case (Cons c s)
  then show ?case
    by (cases Q) (auto simp: iso_def split: if_splits)
qed

lemma sublist_iso:
  assumes "P \<noteq> []" "\<forall>c \<in> set P. \<not> special_char c \<and> c \<noteq> 32"
  shows "sublist P (concat (map iso s)) \<Longrightarrow> sublist P s"
proof (induction s)
  case Nil
  then show ?case by simp
next
  case (Cons c s)
  show ?case
  proof (cases "special_char c")
    case True
    have "c \<notin> set P" "32 \<notin> set P"
      using assms(2) True by blast+
    then have disj: "set [32, c, 32] \<inter> set P = {}"
      by simp
    have "concat (map iso (c # s)) = [32, c, 32] @ concat (map iso s)"
      using True by (simp add: iso_def)
    with Cons.prems have "sublist P ([32, c, 32] @ concat (map iso s))"
      by (simp only:)
    then have "sublist P (concat (map iso s))"
      by (rule sublist_skip_foreign[OF disj assms(1)])
    then have "sublist P s" by (rule Cons.IH)
    then show ?thesis by (simp add: sublist_Cons_right)
  next
    case False
    then have "concat (map iso (c # s)) = c # concat (map iso s)"
      by (simp add: iso_def)
    with Cons.prems have "sublist P (c # concat (map iso s))"
      by (simp only:)
    then have "prefix P (c # concat (map iso s)) \<or> sublist P (concat (map iso s))"
      by (simp only: sublist_Cons_right)
    then show ?thesis
    proof
      assume "prefix P (c # concat (map iso s))"
      then have "prefix P (concat (map iso (c # s)))"
        using False by (simp add: iso_def)
      then have "prefix P (c # s)" by (rule prefix_iso[OF assms(2)])
      then show ?thesis by (rule prefix_imp_sublist)
    next
      assume "sublist P (concat (map iso s))"
      then have "sublist P s" by (rule Cons.IH)
      then show ?thesis by (simp add: sublist_Cons_right)
    qed
  qed
qed

subsection \<open>The stages on text they have already cleaned\<close>

lemma space_32: "space = [32]"
  by (simp add: space_def)

lemma collapse_newlines_squeeze:
  "collapse_newlines e doc = squeeze newline_class [32] False doc"
proof -
  have "newline_class = (\<lambda>c. c = 13 \<or> c = ch CHR ''|'' \<or> c = 10)"
    by (rule ext) (simp add: newline_class_def)
  then show ?thesis
    by (simp add: collapse_newlines_def newline_rx_def re_sub_Plus space_32)
qed

lemma remove_special_characters_map:
  "remove_special_characters e doc = map (\<lambda>c. if plain_char c then c else 32) doc"
proof -
  have "remove_special_characters e doc =
          expand (\<lambda>c. \<not> (ascii_letter c \<or> uni_space c)) (\<lambda>_. space) doc"
    by (simp add: remove_special_characters_def special_rx_def re_sub_Chr)
  also have "\<dots> = map (\<lambda>c. if plain_char c then c else 32) doc"
    by (induction doc) (simp_all add: expand_def plain_char_def space_32)
  finally show ?thesis .
qed

lemma set_remove_emails: "set (remove_emails e x) \<subseteq> insert 32 (set x)"
  unfolding remove_emails_def by (rule set_re_sub) (simp add: space_32)

lemma set_remove_hyperlink: "set (remove_hyperlink e x) \<subseteq> insert 32 (set x)"
  unfolding remove_hyperlink_def by (rule set_re_sub) (simp add: space_32)

lemma set_remove_digits: "set (remove_digits e x) \<subseteq> insert 32 (set x)"
  unfolding remove_digits_def by (rule set_re_sub) (simp add: space_32)

lemma set_collapse_newlines: "set (collapse_newlines e x) \<subseteq> insert 32 (set x)"
  unfolding collapse_newlines_def by (rule set_re_sub) (simp add: space_32)

lemma set_isolate_special: "set (isolate_special e x) \<subseteq> insert 32 (set x)"
  unfolding isolate_special_def by (rule set_re_sub) (auto simp: space_32)

lemma set_remove_special_characters: "set (remove_special_characters e x) \<subseteq> insert 32 (set x)"
  unfolding remove_special_characters_def by (rule set_re_sub) (simp add: space_32)

lemma set_collapse_spaces: "set (collapse_spaces e x) \<subseteq> insert 32 (set x)"
  unfolding collapse_spaces_def by (rule set_re_sub) (simp add: space_32)

lemma remove_accented_chars_ascii: "\<forall>c \<in> set (remove_accented_chars e x). c < 128"
  by (auto simp: remove_accented_chars_def)

lemma remove_accented_chars_id: "\<forall>c \<in> set x. c < 128 \<Longrightarrow> remove_accented_chars e x = x"
  by (induction x) (simp_all add: remove_accented_chars_def)

lemma strip_ws_digits_id: "\<forall>c \<in> set s. \<not> is_digit e c \<Longrightarrow> strip_ws_digits e s = s"
  by (induction e s rule: strip_ws_digits.induct) simp_all

lemma remove_digits_id: "\<forall>c \<in> set s. \<not> is_digit e c \<Longrightarrow> remove_digits e s = s"
  by (simp add: remove_digits_def re_sub_digits strip_ws_digits_id)

lemma remove_emails_id: "guarded_dots b s \<Longrightarrow> remove_emails e s = s"
  unfolding remove_emails_def
  by (rule re_sub_no_match) (rule guarded_dots_no_email)

lemma no_link_no_search:
  "\<not> sublist (lit ''http://'') s \<Longrightarrow> \<not> sublist (lit ''https://'') s \<Longrightarrow>
   \<not> rx_search w hyperlink_rx prev s"
proof (induction s arbitrary: prev)
  case Nil
  have "rx_match w hyperlink_rx prev [] = None"
  proof (cases "rx_match w hyperlink_rx prev []")
    case None
    then show ?thesis .
  next
    case (Some n)
    then have "prefix (lit ''http://'') [] \<or> prefix (lit ''https://'') []"
      using rx_match_hyperlink_prefix by blast
    then show ?thesis by (simp add: lit_def)
  qed
  then show ?case by simp
next
  case (Cons c s)
  have "rx_match w hyperlink_rx prev (c # s) = None"
  proof (cases "rx_match w hyperlink_rx prev (c # s)")
    case None
    then show ?thesis .
  next
    case (Some n)
    then have "prefix (lit ''http://'') (c # s) \<or> prefix (lit ''https://'') (c # s)"
      using rx_match_hyperlink_prefix by blast
    then have "sublist (lit ''http://'') (c # s) \<or> sublist (lit ''https://'') (c # s)"
      using prefix_imp_sublist by blast
    with Cons.prems show ?thesis by blast
  qed
  moreover have "\<not> rx_search w hyperlink_rx (Some c) s"
    using Cons by (simp add: sublist_Cons_right)
  ultimately show ?case by simp
qed

lemma remove_hyperlink_id:
  "\<not> sublist (lit ''http://'') s \<Longrightarrow> \<not> sublist (lit ''https://'') s \<Longrightarrow>
   remove_hyperlink e s = s"
  unfolding remove_hyperlink_def
  by (rule re_sub_no_match) (rule no_link_no_search)

lemma remove_hyperlink_free:
  "\<not> sublist (lit ''http://'') (remove_hyperlink e s)"
  "\<not> sublist (lit ''https://'') (remove_hyperlink e s)"
proof -
  have a: "\<exists>n. rx_match (is_word e) hyperlink_rx prev t = Some (Suc n)"
    if "prefix (lit ''http://'') t" for prev t
    using that rx_match_hyperlink_http[of "is_word e" prev] by (auto simp: prefix_def)
  have b: "\<exists>n. rx_match (is_word e) hyperlink_rx prev t = Some (Suc n)"
    if "prefix (lit ''https://'') t" for prev t
    using that rx_match_hyperlink_https[of "is_word e" prev] by (auto simp: prefix_def)
  show "\<not> sublist (lit ''http://'') (remove_hyperlink e s)"
    unfolding remove_hyperlink_def space_32
    by (rule no_sublist_re_sub_const[OF a]) (simp_all add: lit_def)
  show "\<not> sublist (lit ''https://'') (remove_hyperlink e s)"
    unfolding remove_hyperlink_def space_32
    by (rule no_sublist_re_sub_const[OF b]) (simp_all add: lit_def)
qed

subsection \<open>From the newlines to the white space\<close>

lemma set_tail_stages: "set (tail_stages e x doc) \<subseteq> insert 32 (set doc)"
proof -
  have a: "set (isolate_special e (collapse_newlines e doc)) \<subseteq> insert 32 (set doc)"
    using set_isolate_special[of e "collapse_newlines e doc"] set_collapse_newlines[of e doc]
    by blast
  show ?thesis
  proof (cases x)
    case True
    then show ?thesis
      using a set_collapse_spaces[of e "remove_special_characters e (isolate_special e (collapse_newlines e doc))"]
        set_remove_special_characters[of e "isolate_special e (collapse_newlines e doc)"]
      unfolding tail_stages_def by auto
  next
    case False
    then show ?thesis
      using a set_collapse_spaces[of e "isolate_special e (collapse_newlines e doc)"]
      unfolding tail_stages_def by auto
  qed
qed

lemma no_newline_tail: "c \<in> set (tail_stages e x doc) \<Longrightarrow> \<not> newline_class c"
proof -
  assume c: "c \<in> set (tail_stages e x doc)"
  have n: "\<forall>c \<in> set (collapse_newlines e doc). \<not> newline_class c"
    unfolding collapse_newlines_squeeze
    by (rule squeeze_no_class) (simp add: newline_class_def)
  have a: "set (isolate_special e (collapse_newlines e doc)) \<subseteq> insert 32 (set (collapse_newlines e doc))"
    by (rule set_isolate_special)
  have "set (tail_stages e x doc) \<subseteq> insert 32 (set (collapse_newlines e doc))"
  proof (cases x)
    case True
    then show ?thesis
      using a set_collapse_spaces[of e "remove_special_characters e (isolate_special e (collapse_newlines e doc))"]
        set_remove_special_characters[of e "isolate_special e (collapse_newlines e doc)"]
      unfolding tail_stages_def by auto
  next
    case False
    then show ?thesis
      using a set_collapse_spaces[of e "isolate_special e (collapse_newlines e doc)"]
      unfolding tail_stages_def by auto
  qed
  with c have "c \<in> insert 32 (set (collapse_newlines e doc))" by (rule rev_subsetD)
  then have "c = 32 \<or> c \<in> set (collapse_newlines e doc)" by simp
  then show ?thesis
  proof
    assume "c = 32"
    then show ?thesis by (simp add: newline_class_def)
  next
    assume "c \<in> set (collapse_newlines e doc)"
    with n show ?thesis by simp
  qed
qed

lemma plain_tail: "c \<in> set (tail_stages e True doc) \<Longrightarrow> plain_char c"
proof -
  assume c: "c \<in> set (tail_stages e True doc)"
  let ?y = "isolate_special e (collapse_newlines e doc)"
  have "set (tail_stages e True doc) \<subseteq> insert 32 (set (remove_special_characters e ?y))"
    unfolding tail_stages_def using set_collapse_spaces[of e "remove_special_characters e ?y"] by simp
  with c have "c \<in> insert 32 (set (remove_special_characters e ?y))" by (rule rev_subsetD)
  then have "c = 32 \<or> c \<in> set (remove_special_characters e ?y)" by simp
  then show ?thesis
  proof
    assume "c = 32"
    then show ?thesis by (simp add: plain_char_def uni_space_def)
  next
    assume "c \<in> set (remove_special_characters e ?y)"
    then show ?thesis
      by (auto simp: remove_special_characters_map plain_char_def uni_space_def split: if_splits)
  qed
qed

lemma plain_not_special: "plain_char c \<Longrightarrow> \<not> special_char c"
  by (auto simp: plain_char_def special_char_def ascii_letter_def uni_space_def)

lemma collapse_newlines_id: "\<forall>c \<in> set s. \<not> newline_class c \<Longrightarrow> collapse_newlines e s = s"
  by (simp add: collapse_newlines_squeeze squeeze_id)

lemma isolate_special_id: "\<forall>c \<in> set s. \<not> special_char c \<Longrightarrow> isolate_special e s = s"
  by (induction s) (simp_all add: isolate_special_iso iso_def)

lemma remove_special_characters_id: "\<forall>c \<in> set s. plain_char c \<Longrightarrow> remove_special_characters e s = s"
  by (induction s) (simp_all add: remove_special_characters_map)

lemma collapse_spaces_idem: "collapse_spaces e (collapse_spaces e s) = collapse_spaces e s"
  by (simp add: collapse_spaces_squeeze squeeze_squeeze)

lemma tail_stages_idem: "tail_stages e x (tail_stages e x doc) = tail_stages e x doc"
proof -
  let ?out = "tail_stages e x doc"
  have n: "collapse_newlines e ?out = ?out"
    by (rule collapse_newlines_id) (simp add: no_newline_tail)
  show ?thesis
  proof (cases x)
    case True
    have p: "\<forall>c \<in> set (tail_stages e True doc). plain_char c"
      by (simp add: plain_tail)
    then have s: "isolate_special e (tail_stages e True doc) = tail_stages e True doc"
      by (intro isolate_special_id) (simp add: plain_not_special)
    have r: "remove_special_characters e (tail_stages e True doc) = tail_stages e True doc"
      using p by (rule remove_special_characters_id)
    have "tail_stages e True (tail_stages e True doc) = collapse_spaces e (tail_stages e True doc)"
      using n True s r by (simp add: tail_stages_def[of e True "tail_stages e True doc"])
    also have "\<dots> = tail_stages e True doc"
      by (simp add: tail_stages_def collapse_spaces_idem)
    finally show ?thesis using True by simp
  next
    case False
    have "tail_stages e False (tail_stages e False doc) =
            collapse_spaces e (isolate_special e (tail_stages e False doc))"
      using n False by (simp add: tail_stages_def[of e False "tail_stages e False doc"])
    also have "\<dots> = tail_stages e False doc"
      by (simp add: tail_stages_def spacing_idem)
    finally show ?thesis using False by simp
  qed
qed

lemma guarded_dots_tail: "guarded_dots False (tail_stages e x doc)"
proof (cases x)
  case True
  have "46 \<notin> set (tail_stages e True doc)"
    using plain_tail[of 46 e doc] by (auto simp: plain_char_def ascii_letter_def uni_space_def)
  with True show ?thesis by (simp add: guarded_dots_no_dot)
next
  case False
  have "guarded_dots False (squeeze (\<lambda>c. c = 32) [32] False (concat (map iso (collapse_newlines e doc))))"
    by (rule guarded_dots_squeeze) (simp_all add: guarded_dots_iso)
  with False show ?thesis
    by (simp add: tail_stages_def collapse_spaces_squeeze isolate_special_iso)
qed

lemma link_free_tail:
  assumes "P = lit ''http://'' \<or> P = lit ''https://''" "\<not> sublist P doc"
  shows "\<not> sublist P (tail_stages e False doc)"
proof
  assume a: "sublist P (tail_stages e False doc)"
  have ne: "P \<noteq> []" and sp: "set [32] \<inter> set P = {}"
    and iso: "\<forall>c \<in> set P. \<not> special_char c \<and> c \<noteq> 32"
    using assms(1) by (auto simp: lit_def special_char_def)
  have r: "[32::int] \<noteq> []" by simp
  from a have "sublist P (isolate_special e (collapse_newlines e doc))"
    unfolding tail_stages_def collapse_spaces_def space_32
    using sublist_re_sub_const[OF r sp ne] by simp
  then have "sublist P (collapse_newlines e doc)"
    unfolding isolate_special_iso by (rule sublist_iso[OF ne iso])
  then have "sublist P doc"
    unfolding collapse_newlines_def space_32 by (rule sublist_re_sub_const[OF r sp ne])
  with assms(2) show False by simp
qed

subsection \<open>Idempotence\<close>

lemma preprocess_doc_split:
  "\<not> text_lemmatization f \<Longrightarrow> \<not> stopword_removal f \<Longrightarrow>
   preprocess_doc e f doc = tail_stages e (isRemoveSpecialCharac f) (head_stages e f doc)"
  by (simp add: preprocess_doc_def head_stages_def tail_stages_def Let_def)

lemma sub_step: "A \<subseteq> insert k B \<Longrightarrow> B \<subseteq> insert k C \<Longrightarrow> A \<subseteq> insert k C"
  by blast

lemma set_opt_stage:
  assumes "\<And>x. set (g x) \<subseteq> insert (32::int) (set x)"
  shows "set (if b then g x else x) \<subseteq> insert 32 (set x)"
  using assms by (cases b) auto

lemma set_head_stages:
  assumes "\<not> isRemoveAccentChar f"
  shows "set (head_stages e f doc) \<subseteq>
           insert 32 (set (if text_lower_case f then str_lower e doc else doc))"
proof -
  let ?d1 = "if text_lower_case f then str_lower e doc else doc"
  let ?d2 = "if isRemoveEmail f then remove_emails e ?d1 else ?d1"
  let ?d3 = "if isRemoveHyperLink f then remove_hyperlink e ?d2 else ?d2"
  let ?d5 = "if isRemoveDigits f then remove_digits e ?d3 else ?d3"
  have 2: "set ?d2 \<subseteq> insert 32 (set ?d1)"
    by (rule set_opt_stage) (rule set_remove_emails)
  have 3: "set ?d3 \<subseteq> insert 32 (set ?d2)"
    by (rule set_opt_stage) (rule set_remove_hyperlink)
  have 5: "set ?d5 \<subseteq> insert 32 (set ?d3)"
    by (rule set_opt_stage) (rule set_remove_digits)
  have "set ?d5 \<subseteq> insert 32 (set ?d1)"
    by (rule sub_step[OF 5]) (rule sub_step[OF 3 2])
  moreover have "head_stages e f doc = ?d5"
    using assms by (simp add: head_stages_def Let_def)
  ultimately show ?thesis by simp
qed

lemma ascii_head_stages:
  assumes "isRemoveAccentChar f" "c \<in> set (head_stages e f doc)"
  shows "c < 128"
proof -
  let ?d1 = "if text_lower_case f then str_lower e doc else doc"
  let ?d2 = "if isRemoveEmail f then remove_emails e ?d1 else ?d1"
  let ?d3 = "if isRemoveHyperLink f then remove_hyperlink e ?d2 else ?d2"
  let ?d4 = "remove_accented_chars e ?d3"
  let ?d5 = "if isRemoveDigits f then remove_digits e ?d4 else ?d4"
  have "set ?d5 \<subseteq> insert 32 (set ?d4)"
    by (rule set_opt_stage) (rule set_remove_digits)
  moreover have "head_stages e f doc = ?d5"
    using assms(1) by (simp add: head_stages_def Let_def)
  ultimately have "c \<in> insert 32 (set ?d4)"
    using assms(2) by auto
  then have "c = 32 \<or> c \<in> set ?d4" by simp
  then show ?thesis
    using remove_accented_chars_ascii[of e ?d3] by auto
qed

lemma link_free_head_stages:
  assumes "isRemoveHyperLink f" "\<not> isRemoveAccentChar f" "\<not> isRemoveDigits f"
  shows "\<not> sublist (lit ''http://'') (head_stages e f doc)"
    and "\<not> sublist (lit ''https://'') (head_stages e f doc)"
proof -
  let ?d1 = "if text_lower_case f then str_lower e doc else doc"
  let ?d2 = "if isRemoveEmail f then remove_emails e ?d1 else ?d1"
  have "head_stages e f doc = remove_hyperlink e ?d2"
    using assms by (simp add: head_stages_def Let_def)
  then show "\<not> sublist (lit ''http://'') (head_stages e f doc)"
    and "\<not> sublist (lit ''https://'') (head_stages e f doc)"
    by (simp_all add: remove_hyperlink_free)
qed

lemma plain_no_colon: "\<forall>c \<in> set s. plain_char c \<Longrightarrow> \<not> sublist (lit ''http://'') s \<and> \<not> sublist (lit ''https://'') s"
proof -
  assume p: "\<forall>c \<in> set s. plain_char c"
  have "\<not> plain_char 58"
    by (simp add: plain_char_def ascii_letter_def uni_space_def)
  with p have n: "58 \<notin> set s" by blast
  have "58 \<in> set (lit ''http://'')" "58 \<in> set (lit ''https://'')"
    by (simp_all add: lit_def)
  with n show ?thesis
    using set_mono_sublist by blast
qed

lemma plain_not_digit:
  assumes "\<forall>c. uni_space c \<longrightarrow> \<not> is_digit e c" "plain_char c"
  shows "\<not> is_digit e c"
  using assms by (auto simp: plain_char_def is_digit_def ascii_letter_def ascii_digit_def)

text \<open>
  C3, as stated, fails. With the digit stage on and the special-character
  stage off, \<^verbatim>\<open>Windows 8.1 update\<close> becomes \<^verbatim>\<open>Windows . 1 update\<close>, where the
  spacing has put the digit behind a space, and a second run removes it. With
  case folding and accent normalization on, the trade mark sign decomposes to
  \<^verbatim>\<open>TM\<close> after the case fold, and a second run lowers it. With the hyperlink
  stage and accent normalization on and the special-character stage off, a
  full-width letter turns into the \<^verbatim>\<open>h\<close> of \<^verbatim>\<open>http://x\<close> after the hyperlink
  stage, and a second run removes the link.
\<close>

theorem normalization_not_idempotent_counterexample:
  "preprocess_doc ascii_env (no_flags \<lparr> isRemoveDigits := True \<rparr>)
     (preprocess_doc ascii_env (no_flags \<lparr> isRemoveDigits := True \<rparr>)
        (lit ''Windows 8.1 update''))
   \<noteq> preprocess_doc ascii_env (no_flags \<lparr> isRemoveDigits := True \<rparr>)
        (lit ''Windows 8.1 update'')
   \<and> preprocess_doc sample_env
         (no_flags \<lparr> isRemoveAccentChar := True, text_lower_case := True \<rparr>)
         (preprocess_doc sample_env
            (no_flags \<lparr> isRemoveAccentChar := True, text_lower_case := True \<rparr>) [8482])
       \<noteq> preprocess_doc sample_env
            (no_flags \<lparr> isRemoveAccentChar := True, text_lower_case := True \<rparr>) [8482]
   \<and> preprocess_doc sample_env
         (no_flags \<lparr> isRemoveAccentChar := True, isRemoveHyperLink := True \<rparr>)
         (preprocess_doc sample_env
            (no_flags \<lparr> isRemoveAccentChar := True, isRemoveHyperLink := True \<rparr>)
            (65352 # lit ''ttp://x''))
       \<noteq> preprocess_doc sample_env
            (no_flags \<lparr> isRemoveAccentChar := True, isRemoveHyperLink := True \<rparr>)
            (65352 # lit ''ttp://x'')"
  by code_simp

text \<open>
  C3, amended. Let lemmatization and stopword removal be off. Normalization is
  idempotent for every document when, in addition, the digit stage is off or
  the special-character stage is on, and accent normalization is off or else
  case folding is off and the hyperlink stage is off or the special-character
  stage is on. Two facts of the character database are assumed: lower-casing
  leaves a string unchanged that is made of characters of a lower-cased string
  and of spaces, and no white-space character is a decimal digit.
\<close>

theorem normalization_idempotent_amended:
  assumes nl: "\<not> text_lemmatization f" and ns: "\<not> stopword_removal f"
    and c1: "isRemoveSpecialCharac f \<or> \<not> isRemoveDigits f"
    and c2: "isRemoveAccentChar f \<longrightarrow>
               \<not> text_lower_case f \<and> (isRemoveSpecialCharac f \<or> \<not> isRemoveHyperLink f)"
    and lower: "\<forall>s t. set t \<subseteq> insert 32 (set (str_lower e s)) \<longrightarrow> str_lower e t = t"
    and dec: "\<forall>c. uni_space c \<longrightarrow> \<not> is_digit e c"
  shows "preprocess_doc e f (preprocess_doc e f doc) = preprocess_doc e f doc"
proof -
  define z where "z = head_stages e f doc"
  define out where "out = tail_stages e (isRemoveSpecialCharac f) z"
  have out: "preprocess_doc e f doc = out"
    using nl ns by (simp add: preprocess_doc_split out_def z_def)
  have sub: "set out \<subseteq> insert 32 (set z)"
    unfolding out_def by (rule set_tail_stages)
  have plain: "\<forall>c \<in> set out. plain_char c" if "isRemoveSpecialCharac f"
    using that plain_tail[of _ e z] by (simp add: out_def)
  have L: "str_lower e out = out" if "text_lower_case f"
  proof -
    from that c2 have "\<not> isRemoveAccentChar f" by blast
    then have "set z \<subseteq> insert 32 (set (str_lower e doc))"
      using set_head_stages[of f e doc] that by (simp add: z_def)
    with sub have "set out \<subseteq> insert 32 (set (str_lower e doc))"
      by (rule sub_step)
    with lower show ?thesis by blast
  qed
  have E: "remove_emails e out = out"
    unfolding out_def by (rule remove_emails_id) (rule guarded_dots_tail)
  have H: "remove_hyperlink e out = out" if h: "isRemoveHyperLink f"
  proof (cases "isRemoveSpecialCharac f")
    case True
    then have "\<not> sublist (lit ''http://'') out \<and> \<not> sublist (lit ''https://'') out"
      by (intro plain_no_colon plain)
    then show ?thesis by (simp add: remove_hyperlink_id)
  next
    case False
    with c1 c2 h have "\<not> isRemoveAccentChar f" "\<not> isRemoveDigits f" by blast+
    with h have "\<not> sublist (lit ''http://'') z" "\<not> sublist (lit ''https://'') z"
      unfolding z_def by (simp_all add: link_free_head_stages)
    then have "\<not> sublist (lit ''http://'') out" "\<not> sublist (lit ''https://'') out"
      using False unfolding out_def by (simp_all add: link_free_tail)
    then show ?thesis by (simp add: remove_hyperlink_id)
  qed
  have A: "remove_accented_chars e out = out" if a: "isRemoveAccentChar f"
  proof (rule remove_accented_chars_id, rule ballI)
    fix c assume "c \<in> set out"
    with sub have "c \<in> insert 32 (set z)" by (rule subsetD)
    then have "c = 32 \<or> c \<in> set z" by simp
    then show "c < 128"
      using ascii_head_stages[OF a, of c e doc] by (auto simp: z_def)
  qed
  have D: "remove_digits e out = out" if d: "isRemoveDigits f"
  proof -
    from d c1 have "isRemoveSpecialCharac f" by blast
    then have "\<forall>c \<in> set out. plain_char c" by (rule plain)
    then have "\<forall>c \<in> set out. \<not> is_digit e c"
      using plain_not_digit[OF dec] by blast
    then show ?thesis by (rule remove_digits_id)
  qed
  have "head_stages e f out = out"
    by (simp add: head_stages_def Let_def L E H A D)
  then have "preprocess_doc e f out = tail_stages e (isRemoveSpecialCharac f) out"
    using nl ns by (simp add: preprocess_doc_split)
  also have "\<dots> = out"
    unfolding out_def by (rule tail_stages_idem)
  finally show ?thesis by (simp add: out)
qed

lemma ascii_lower_idem: "ascii_lower (ascii_lower c) = ascii_lower c"
  by (simp add: ascii_lower_def ascii_upper_def)

lemma ascii_env_lower_stable:
  "\<forall>s t. set t \<subseteq> insert 32 (set (str_lower ascii_env s)) \<longrightarrow> str_lower ascii_env t = t"
proof (intro allI impI)
  fix s t :: pystr
  assume sub: "set t \<subseteq> insert 32 (set (str_lower ascii_env s))"
  have low: "str_lower ascii_env u = map ascii_lower u" for u
    by (simp add: str_lower_def ascii_env_def)
  have "ascii_lower c = c" if "c \<in> set t" for c
  proof -
    from that sub have "c \<in> insert 32 (set (map ascii_lower s))"
      unfolding low by (rule rev_subsetD)
    then have "c = 32 \<or> (\<exists>x. c = ascii_lower x)" by auto
    then show ?thesis
      by (auto simp: ascii_lower_idem) (simp add: ascii_lower_def ascii_upper_def)
  qed
  then have "map ascii_lower t = t" by (simp add: map_idI)
  then show "str_lower ascii_env t = t" by (simp add: low)
qed

lemma ascii_env_no_space_digit: "\<forall>c. uni_space c \<longrightarrow> \<not> is_digit ascii_env c"
  by (auto simp: is_digit_def ascii_env_def ascii_digit_def uni_space_def)

theorem normalization_idempotent_amended_witness:
  "preprocess_doc ascii_env plain_flags
     (preprocess_doc ascii_env plain_flags
        (lit ''Contact me at a@b.com or visit http://x.com!!! 2 cats'')) =
   preprocess_doc ascii_env plain_flags
     (lit ''Contact me at a@b.com or visit http://x.com!!! 2 cats'')"
  using normalization_idempotent_amended [of plain_flags ascii_env
                 "lit ''Contact me at a@b.com or visit http://x.com!!! 2 cats''"]
        ascii_env_lower_stable ascii_env_no_space_digit
  by (simp add: plain_flags_def)

subsection \<open>The example document\<close>

lemma preprocess_doc_all_flags:
  "preprocess_doc e all_flags doc = remove_stopwords e (stopword_input e doc) True"
  by (simp add: preprocess_doc_def all_flags_def stopword_input_def before_lemmatizer_def
                head_stages_def Let_def)

lemma before_lemmatizer_example:
  "before_lemmatizer e (lit ''Contact me at a@b.com or visit http://x.com!!! 2 cats'') =
     lit ''contact me at   or visit    cats''"
  by code_simp

lemma example_no_http: "\<not> sublist (lit ''http'') (lit ''contact me at   or visit    cats'')"
  by code_simp

lemma plain_after_special:
  assumes "c \<in> set (collapse_spaces e (remove_special_characters e y))"
  shows "plain_char c"
proof -
  have "set (collapse_spaces e (remove_special_characters e y))
          \<subseteq> insert 32 (set (remove_special_characters e y))"
    by (rule set_collapse_spaces)
  with assms have "c \<in> insert 32 (set (remove_special_characters e y))"
    by (rule rev_subsetD)
  then have "c = 32 \<or> c \<in> set (remove_special_characters e y)" by simp
  then show ?thesis
  proof
    assume "c = 32"
    then show ?thesis by (simp add: plain_char_def uni_space_def)
  next
    assume "c \<in> set (remove_special_characters e y)"
    then show ?thesis
      by (auto simp: remove_special_characters_map plain_char_def uni_space_def split: if_splits)
  qed
qed

lemma split_acc_props:
  "\<forall>c \<in> set cur. non_space c \<Longrightarrow> tok \<in> set (split_acc cur s) \<Longrightarrow>
   tok \<noteq> [] \<and> (\<forall>c \<in> set tok. non_space c) \<and> sublist tok (cur @ s)"
proof (induction s arbitrary: cur)
  case Nil
  then show ?case by (auto split: if_splits)
next
  case (Cons c s)
  show ?case
  proof (cases "uni_space c")
    case True
    show ?thesis
    proof (cases "tok = cur \<and> cur \<noteq> []")
      case True
      with Cons.prems show ?thesis by auto
    next
      case False
      with Cons.prems \<open>uni_space c\<close> have "tok \<in> set (split_acc [] s)"
        by (auto split: if_splits)
      then have "tok \<noteq> [] \<and> (\<forall>c \<in> set tok. non_space c) \<and> sublist tok ([] @ s)"
        by (intro Cons.IH) simp_all
      then have "tok \<noteq> [] \<and> (\<forall>c \<in> set tok. non_space c) \<and> sublist tok s" by simp
      moreover have "sublist s (cur @ c # s)"
        using sublist_appendI[of s "cur @ [c]" "[]"] by simp
      ultimately show ?thesis
        using sublist_order.order_trans by blast
    qed
  next
    case False
    with Cons.prems have "tok \<in> set (split_acc (cur @ [c]) s)" by simp
    moreover have "\<forall>x \<in> set (cur @ [c]). non_space x"
      using Cons.prems(1) False by (simp add: non_space_def)
    ultimately have "tok \<noteq> [] \<and> (\<forall>c \<in> set tok. non_space c) \<and> sublist tok ((cur @ [c]) @ s)"
      by (intro Cons.IH)
    then show ?thesis by simp
  qed
qed

lemma str_split_props:
  "tok \<in> set (str_split s) \<Longrightarrow>
   tok \<noteq> [] \<and> (\<forall>c \<in> set tok. non_space c) \<and> sublist tok s"
  using split_acc_props[of "[]" tok s] by (simp add: str_split_def)

lemma strip_id: "\<forall>c \<in> set t. non_space c \<Longrightarrow> strip t = t"
proof -
  assume a: "\<forall>c \<in> set t. non_space c"
  have d: "dropWhile uni_space u = u" if "\<forall>c \<in> set u. non_space c" for u
    using that by (cases u) (simp_all add: non_space_def)
  have "dropWhile uni_space (rev t) = rev t"
    using a by (intro d) simp
  with a d[of t] show ?thesis by (simp add: strip_def)
qed

lemma set_join: "set (join sep ts) \<subseteq> set sep \<union> \<Union> (set ` set ts)"
  by (induction sep ts rule: join.induct) auto

lemma sublist_split_at:
  assumes "k \<notin> set P" "sublist P (xs @ k # ys)"
  shows "sublist P xs \<or> sublist P ys"
proof -
  from assms(2) consider "sublist P xs" | "sublist P (k # ys)"
    | xs1 xs2 where "P = xs1 @ xs2" "suffix xs1 xs" "prefix xs2 (k # ys)"
    unfolding sublist_append by blast
  then show ?thesis
  proof cases
    case 1
    then show ?thesis by simp
  next
    case 2
    then have "prefix P (k # ys) \<or> sublist P ys" by (simp add: sublist_Cons_right)
    then show ?thesis
    proof
      assume "prefix P (k # ys)"
      with assms(1) have "P = []" by (cases P) auto
      then show ?thesis by simp
    next
      assume "sublist P ys"
      then show ?thesis by simp
    qed
  next
    case 3
    from 3(3) assms(1) 3(1) have "xs2 = []" by (cases xs2) auto
    with 3 have "suffix P xs" by simp
    then show ?thesis by (simp add: suffix_imp_sublist)
  qed
qed

lemma sublist_join:
  assumes "P \<noteq> []" "32 \<notin> set P"
  shows "sublist P (join [32] ts) \<Longrightarrow> \<exists>t \<in> set ts. sublist P t"
proof (induction "[32::int]" ts rule: join.induct)
  case 1
  with assms(1) show ?case by simp
next
  case (2 x)
  then show ?case by simp
next
  case (3 x y ys)
  from "3.prems" have "sublist P (x @ 32 # join [32] (y # ys))" by simp
  then have "sublist P x \<or> sublist P (join [32] (y # ys))"
    by (rule sublist_split_at[OF assms(2)])
  then show ?case
    using "3.hyps" by auto
qed

lemma sublist_strip_special:
  assumes "32 \<notin> set P" "sublist P (remove_special_characters e y)"
  shows "sublist P y"
proof -
  let ?g = "\<lambda>c. if plain_char c then c else (32::int)"
  from assms(2) obtain xs' where xs: "sublist xs' y" "P = map ?g xs'"
    unfolding remove_special_characters_map using sublist_map_rightE by blast
  have "?g c = c" if "c \<in> set xs'" for c
  proof -
    from that xs(2) have "?g c \<in> set P" by simp
    with assms(1) have "?g c \<noteq> 32" by metis
    then show ?thesis by (simp split: if_splits)
  qed
  then have "map ?g xs' = xs'" by (simp add: map_idI)
  with xs show ?thesis by simp
qed

lemma split_acc_word:
  "\<forall>c \<in> set t. non_space c \<Longrightarrow> split_acc cur (t @ rest) = split_acc (cur @ t) rest"
  by (induction t arbitrary: cur) (simp_all add: non_space_def)

lemma str_split_join:
  "\<forall>t \<in> set ts. t \<noteq> [] \<and> (\<forall>c \<in> set t. non_space c) \<Longrightarrow>
   str_split (join [32] ts) = ts"
proof (induction "[32::int]" ts rule: join.induct)
  case 1
  then show ?case by (simp add: str_split_def)
next
  case (2 x)
  then have "split_acc [] (x @ []) = split_acc ([] @ x) []"
    by (intro split_acc_word) simp
  with 2 show ?case by (simp add: str_split_def)
next
  case (3 x y ys)
  from "3.prems" have x: "x \<noteq> []" "\<forall>c \<in> set x. non_space c" by simp_all
  have "split_acc [] (x @ 32 # join [32] (y # ys)) = split_acc ([] @ x) (32 # join [32] (y # ys))"
    using x(2) by (rule split_acc_word)
  also have "\<dots> = x # split_acc [] (join [32] (y # ys))"
    using x(1) by (simp add: uni_space_def)
  also have "split_acc [] (join [32] (y # ys)) = y # ys"
    using "3.hyps" "3.prems" by (simp add: str_split_def)
  finally show ?case by (simp add: str_split_def)
qed

lemma plain_word_letter: "plain_char c \<Longrightarrow> non_space c \<Longrightarrow> ascii_letter c"
  by (simp add: plain_char_def non_space_def)

text \<open>
  C4. With all flags on, the output for the document
  \<^verbatim>\<open>Contact me at a@b.com or visit http://x.com!!! 2 cats\<close> has no \<^verbatim>\<open>@\<close>, no substring
  \<^verbatim>\<open>http\<close>, no digit at all, hence no digit token, and no token whose lower-cased
  form is in the stopword list. Two things are assumed of the libraries: the
  lemmatizer does not put \<^verbatim>\<open>http\<close> into this document, which has none when it
  reaches the lemmatizer, and the tokenizer splits the document it is given,
  letters and white space only, at the white space.
\<close>

theorem example_output_clean:
  assumes lem:
      "\<not> sublist (lit ''http'')
           (before_lemmatizer e (lit ''Contact me at a@b.com or visit http://x.com!!! 2 cats''))
       \<longrightarrow> \<not> sublist (lit ''http'')
             (lemmatize_text e
                (before_lemmatizer e (lit ''Contact me at a@b.com or visit http://x.com!!! 2 cats'')))"
    and tok:
      "toktok e (stopword_input e (lit ''Contact me at a@b.com or visit http://x.com!!! 2 cats''))
       = str_split (stopword_input e (lit ''Contact me at a@b.com or visit http://x.com!!! 2 cats''))"
  shows "ch CHR ''@'' \<notin> set (preprocess_doc e all_flags (lit ''Contact me at a@b.com or visit http://x.com!!! 2 cats''))
       \<and> \<not> sublist (lit ''http'') (preprocess_doc e all_flags (lit ''Contact me at a@b.com or visit http://x.com!!! 2 cats''))
       \<and> (\<forall>c \<in> set (preprocess_doc e all_flags (lit ''Contact me at a@b.com or visit http://x.com!!! 2 cats'')). \<not> is_digit e c)
       \<and> (\<forall>token \<in> set (str_split (preprocess_doc e all_flags (lit ''Contact me at a@b.com or visit http://x.com!!! 2 cats''))).
            str_lower e token \<notin> set (stopword_list e))"
proof -
  define doc where "doc = lit ''Contact me at a@b.com or visit http://x.com!!! 2 cats''"
  define y where "y = lemmatize_text e (before_lemmatizer e doc)"
  define x where "x = stopword_input e doc"
  define toks where "toks = str_split x"
  define kept where "kept = filter (\<lambda>token. str_lower e token \<notin> set (stopword_list e)) toks"
  define out where "out = preprocess_doc e all_flags doc"
  have x_def': "x = collapse_spaces e (remove_special_characters e y)"
    by (simp add: x_def y_def stopword_input_def)
  have "\<not> sublist (lit ''http'') (before_lemmatizer e doc)"
    by (simp add: doc_def before_lemmatizer_example example_no_http)
  with lem have no_http_y: "\<not> sublist (lit ''http'') y"
    by (simp add: y_def doc_def)
  have tok_props: "t \<noteq> [] \<and> (\<forall>c \<in> set t. non_space c) \<and> sublist t x" if "t \<in> set toks" for t
    using that unfolding toks_def by (rule str_split_props)
  have strip_toks: "map strip toks = toks"
    by (rule map_idI) (simp add: tok_props strip_id)
  have "toktok e x = toks"
    using tok by (simp add: x_def doc_def toks_def)
  then have "remove_stopwords e x True = join [32] kept"
    by (simp add: remove_stopwords_def Let_def strip_toks kept_def space_32)
  then have out_join: "out = join [32] kept"
    by (simp add: out_def preprocess_doc_all_flags x_def)
  have kept_sub: "set kept \<subseteq> set toks"
    by (auto simp: kept_def)
  have letters: "ascii_letter c" if "t \<in> set kept" "c \<in> set t" for t c
  proof -
    from kept_sub that(1) have t: "t \<in> set toks" by (rule subsetD)
    then have "sublist t x" by (simp add: tok_props)
    then have "set t \<subseteq> set x" by (rule set_mono_sublist)
    then have "c \<in> set x" using that(2) by (rule subsetD)
    then have "plain_char c"
      unfolding x_def' by (rule plain_after_special)
    moreover have "non_space c" using tok_props[OF t] that(2) by simp
    ultimately show ?thesis by (rule plain_word_letter)
  qed
  have chars: "c = 32 \<or> ascii_letter c" if "c \<in> set out" for c
  proof -
    from that have "c \<in> set (join [32] kept)"
      unfolding out_join .
    then have "c \<in> set [32] \<union> \<Union> (set ` set kept)"
      by (rule subsetD[OF set_join])
    then have "c = 32 \<or> (\<exists>t \<in> set kept. c \<in> set t)"
      by simp
    then show ?thesis
    proof
      assume "c = 32"
      then show ?thesis by simp
    next
      assume "\<exists>t \<in> set kept. c \<in> set t"
      then obtain t where "t \<in> set kept" "c \<in> set t" by (rule bexE)
      then have "ascii_letter c" by (rule letters)
      then show ?thesis by simp
    qed
  qed
  have a: "ch CHR ''@'' \<notin> set out"
  proof
    assume "ch CHR ''@'' \<in> set out"
    then have "ch CHR ''@'' = (32::int) \<or> ascii_letter (ch CHR ''@'')" by (rule chars)
    then show False by (simp add: ascii_letter_def)
  qed
  have b: "\<not> sublist (lit ''http'') out"
  proof
    assume "sublist (lit ''http'') out"
    then have "sublist (lit ''http'') (join [32] kept)"
      unfolding out_join .
    moreover have ne: "lit ''http'' \<noteq> []" and n32: "32 \<notin> set (lit ''http'')"
      by (simp_all add: lit_def)
    ultimately have "\<exists>t \<in> set kept. sublist (lit ''http'') t"
      by (intro sublist_join)
    then obtain t where t: "t \<in> set kept" "sublist (lit ''http'') t" by (rule bexE)
    from t(1) kept_sub have "t \<in> set toks" by (rule subsetD[rotated])
    then have "sublist t x" by (simp add: tok_props)
    have r: "[32::int] \<noteq> []" and sp: "set [32] \<inter> set (lit ''http'') = {}"
      by (simp_all add: lit_def)
    from t(2) \<open>sublist t x\<close> have "sublist (lit ''http'') x"
      by (rule sublist_order.order_trans)
    then have "sublist (lit ''http'') (remove_special_characters e y)"
      unfolding x_def' collapse_spaces_def space_32
      by (rule sublist_re_sub_const[OF r sp ne])
    then have "sublist (lit ''http'') y"
      by (rule sublist_strip_special[OF n32])
    with no_http_y show False by simp
  qed
  have c: "\<forall>c \<in> set out. \<not> is_digit e c"
  proof
    fix c assume "c \<in> set out"
    then have "c = 32 \<or> ascii_letter c" by (rule chars)
    then show "\<not> is_digit e c"
      by (auto simp: is_digit_def ascii_digit_def ascii_letter_def)
  qed
  have "\<forall>t \<in> set kept. t \<noteq> [] \<and> (\<forall>c \<in> set t. non_space c)"
  proof
    fix t assume "t \<in> set kept"
    with kept_sub have "t \<in> set toks" by (rule subsetD)
    then show "t \<noteq> [] \<and> (\<forall>c \<in> set t. non_space c)" by (simp add: tok_props)
  qed
  then have "str_split out = kept"
    unfolding out_join by (rule str_split_join)
  then have d: "\<forall>token \<in> set (str_split out). str_lower e token \<notin> set (stopword_list e)"
    by (simp add: kept_def)
  from a b c d show ?thesis
    by (simp add: out_def doc_def)
qed

theorem example_output_clean_witness:
  "preprocess_doc ascii_env all_flags
     (lit ''Contact me at a@b.com or visit http://x.com!!! 2 cats'') = lit ''contact visit cats''
   \<and> ch CHR ''@'' \<notin> set (lit ''contact visit cats'')
   \<and> \<not> sublist (lit ''http'') (lit ''contact visit cats'')
   \<and> filter (is_digit ascii_env) (lit ''contact visit cats'') = []
   \<and> filter (\<lambda>token. str_lower ascii_env token \<in> set (stopword_list ascii_env))
        (str_split (lit ''contact visit cats'')) = []"
proof -
  have v: "preprocess_doc ascii_env all_flags
     (lit ''Contact me at a@b.com or visit http://x.com!!! 2 cats'') = lit ''contact visit cats''"
    by code_simp
  have h1: "\<not> sublist (lit ''http'')
             (lemmatize_text ascii_env
                (before_lemmatizer ascii_env
                   (lit ''Contact me at a@b.com or visit http://x.com!!! 2 cats'')))"
    by code_simp
  have h2: "toktok ascii_env
              (stopword_input ascii_env (lit ''Contact me at a@b.com or visit http://x.com!!! 2 cats''))
       = str_split
              (stopword_input ascii_env (lit ''Contact me at a@b.com or visit http://x.com!!! 2 cats''))"
    by (simp add: ascii_env_def)
  have "ch CHR ''@'' \<notin> set (preprocess_doc ascii_env all_flags (lit ''Contact me at a@b.com or visit http://x.com!!! 2 cats''))
       \<and> \<not> sublist (lit ''http'') (preprocess_doc ascii_env all_flags (lit ''Contact me at a@b.com or visit http://x.com!!! 2 cats''))
       \<and> (\<forall>c \<in> set (preprocess_doc ascii_env all_flags (lit ''Contact me at a@b.com or visit http://x.com!!! 2 cats'')). \<not> is_digit ascii_env c)
       \<and> (\<forall>token \<in> set (str_split (preprocess_doc ascii_env all_flags (lit ''Contact me at a@b.com or visit http://x.com!!! 2 cats''))).
            str_lower ascii_env token \<notin> set (stopword_list ascii_env))"
    by (rule example_output_clean [of ascii_env]) (simp_all only: h1 h2 simp_thms)
  then have "ch CHR ''@'' \<notin> set (lit ''contact visit cats'')
   \<and> \<not> sublist (lit ''http'') (lit ''contact visit cats'')
   \<and> (\<forall>c \<in> set (lit ''contact visit cats''). \<not> is_digit ascii_env c)
   \<and> (\<forall>token \<in> set (str_split (lit ''contact visit cats'')).
        str_lower ascii_env token \<notin> set (stopword_list ascii_env))"
    unfolding v .
  then have rest: "ch CHR ''@'' \<notin> set (lit ''contact visit cats'')
   \<and> \<not> sublist (lit ''http'') (lit ''contact visit cats'')
   \<and> filter (is_digit ascii_env) (lit ''contact visit cats'') = []
   \<and> filter (\<lambda>token. str_lower ascii_env token \<in> set (stopword_list ascii_env))
        (str_split (lit ''contact visit cats'')) = []"
    unfolding filter_empty_conv .
  from v rest show ?thesis by (rule conjI)
qed

subsection \<open>Exceptions\<close>











end
